theory Spec2Isabelle
  imports Complex_Main "HOL-Library.Char_ord" "HOL-Library.List_Lexorder"
begin

section \<open>The discount dashboard: data model\<close>

text \<open>
  The program is \<^verbatim>\<open>Streamlit/optimaldiscount_dashboard.py\<close>. Its pipeline is
  \<^verbatim>\<open>load_and_prepare_data\<close> (lines 7-21), \<^verbatim>\<open>perform_discount_analysis\<close> (lines 25-36)
  and the recommendation of \<^verbatim>\<open>main\<close> (line 91). The embedding starts at the data frame
  that \<^verbatim>\<open>pd.read_csv\<close> returns, restricted to the four columns line 11 selects.

  A cell as \<^verbatim>\<open>read_csv\<close> returns it is a float64 (\<open>Num x\<close>, for the decimal \<open>x\<close> written
  in the file: its value is \<open>x\<close> rounded to the nearest float64), an int64 (\<open>I64 n\<close>, in a
  column of whole numbers without a gap), a string (in a column it could not read as
  numbers, where every cell present is a string), or missing (an empty cell).

  Numbers: a float64 value is the real number it stands for, and every float64
  operation rounds its exact result to the nearest float64 (\<open>round64\<close>); an int64 sum or
  product wraps around (\<open>wrap64\<close>). NaN of a float column is \<open>None\<close> of \<open>real option\<close>.
  The discount is only compared with the bin edges, never computed with, and is kept
  as the decimal written. Infinite values are held only in the ratio column: an
  infinite cell of the file, and a margin, a sum or a mean beyond the float64 range
  (about 1.8e308), are outside the model, and so is the sign of a zero.
\<close>

datatype cell = Num real | I64 int | Text string | NA

record csv_row =
  csv_discount :: cell
  csv_profit :: cell
  csv_sales :: cell
  csv_profit_margin :: cell

text \<open>
  After lines 12 and 13 the columns \<^verbatim>\<open>discount\<close> and \<^verbatim>\<open>profit_margin\<close> are float64;
  \<^verbatim>\<open>profit\<close> and \<^verbatim>\<open>sales\<close> are as \<^verbatim>\<open>read_csv\<close> left them.
\<close>

record row =
  discount :: "real option"
  profit :: cell
  sales :: cell
  profit_margin :: "real option"

record prepared_row = row +
  discount_range :: string

text \<open>
  The result of the float division of line 34, which is infinite or NaN when the
  divisor is zero.
\<close>

datatype float64 = Finite real | PosInf | NegInf | NaN

text \<open>
  A row of the aggregate. The source keeps the column names \<^verbatim>\<open>sales\<close>, \<^verbatim>\<open>profit\<close>
  and \<^verbatim>\<open>profit_margin\<close> for the sums and the mean; they are named here as the
  specification names them. The table is indexed by the group key.
\<close>

record agg_row =
  total_sales :: real
  total_profit :: real
  avg_profit_margin :: "real option"
  profit_to_sales_ratio :: float64

datatype error = TypeError | ValueError

section \<open>float64 and int64 arithmetic\<close>

text \<open>
  The binary exponent of a positive real: the \<open>e\<close> with \<open>2^e \<le> x < 2^(e+1)\<close>, found by
  halving or doubling.
\<close>

function float_exp :: "real \<Rightarrow> int" where
  "float_exp x =
     (if x \<le> 0 then 0
      else if 2 \<le> x then float_exp (x / 2) + 1
      else if x < 1 then float_exp (x * 2) - 1
      else 0)"
  by pat_completeness auto
termination
proof (relation "measure (\<lambda>x. nat \<bar>\<lfloor>log 2 x\<rfloor>\<bar>)")
  show "wf (measure (\<lambda>x. nat \<bar>\<lfloor>log 2 x\<rfloor>\<bar>))" by simp
next
  fix x :: real assume x: "\<not> x \<le> 0" "2 \<le> x"
  have "log 2 (x / 2) = log 2 x - 1" using x by (simp add: log_divide)
  then have f: "\<lfloor>log 2 (x / 2)\<rfloor> = \<lfloor>log 2 x\<rfloor> - 1" by simp
  have "1 \<le> log 2 x" using x by (simp add: le_log_iff)
  then have "1 \<le> \<lfloor>log 2 x\<rfloor>" by (simp add: le_floor_iff)
  with f have "nat \<bar>\<lfloor>log 2 (x / 2)\<rfloor>\<bar> < nat \<bar>\<lfloor>log 2 x\<rfloor>\<bar>" by linarith
  then show "(x / 2, x) \<in> measure (\<lambda>x. nat \<bar>\<lfloor>log 2 x\<rfloor>\<bar>)" by simp
next
  fix x :: real assume x: "\<not> x \<le> 0" "\<not> 2 \<le> x" "x < 1"
  have "log 2 (x * 2) = log 2 x + 1" using x by (simp add: log_mult)
  then have f: "\<lfloor>log 2 (x * 2)\<rfloor> = \<lfloor>log 2 x\<rfloor> + 1" by simp
  have "log 2 x < 0" using x by simp
  then have "\<lfloor>log 2 x\<rfloor> < 0" by (simp add: floor_less_iff)
  with f have "nat \<bar>\<lfloor>log 2 (x * 2)\<rfloor>\<bar> < nat \<bar>\<lfloor>log 2 x\<rfloor>\<bar>" by linarith
  then show "(x * 2, x) \<in> measure (\<lambda>x. nat \<bar>\<lfloor>log 2 x\<rfloor>\<bar>)" by simp
qed

declare float_exp.simps [simp del]

text \<open>Rounding to the nearest integer, a tie to the even one.\<close>

definition round_even :: "real \<Rightarrow> int" where
  "round_even y =
     (let f = \<lfloor>y\<rfloor>; r = y - of_int f
      in if r < 1 / 2 then f else if 1 / 2 < r then f + 1 else if even f then f else f + 1)"

text \<open>
  Rounding to the nearest float64 (53 significant bits, ties to even; below \<open>2^-1022\<close>
  the spacing stays \<open>2^-1074\<close>). The exponent is not bounded above here: \<open>to_float64\<close>
  adds the overflow to infinity.
\<close>

definition round64 :: "real \<Rightarrow> real" where
  "round64 x =
     (if x = 0 then 0
      else (let e = max (float_exp \<bar>x\<bar> - 52) (- 1074)
            in of_int (round_even (x / 2 powi e)) * 2 powi e))"

definition to_float64 :: "real \<Rightarrow> float64" where
  "to_float64 x =
     (let y = round64 x
      in if 2 ^ 1024 \<le> y then PosInf else if y \<le> - (2 ^ 1024) then NegInf else Finite y)"

text \<open>An int64 result: the integer modulo \<open>2^64\<close>, between \<open>-2^63\<close> and \<open>2^63 - 1\<close>.\<close>

definition wrap64 :: "int \<Rightarrow> int" where
  "wrap64 n = (n + 2 ^ 63) mod 2 ^ 64 - 2 ^ 63"

section \<open>load_and_prepare_data\<close>

text \<open>
  \<^verbatim>\<open>pd.to_numeric(..., errors='coerce')\<close>: a number stays, a missing value stays
  missing, a string is parsed and becomes NaN when it is not a number. The parser of
  strings belongs to pandas and is a parameter; it gives the decimal read.
\<close>

definition to_numeric :: "(string \<Rightarrow> real option) \<Rightarrow> cell \<Rightarrow> real option" where
  "to_numeric parse c =
     (case c of Num x \<Rightarrow> Some x | I64 n \<Rightarrow> Some (of_int n) | Text s \<Rightarrow> parse s | NA \<Rightarrow> None)"

text \<open>
  \<^verbatim>\<open>* 100\<close> on the coerced margin: the int64 product in a column of int64, the
  float64 product otherwise.
\<close>

definition mul100 :: "cell \<Rightarrow> real \<Rightarrow> real" where
  "mul100 c x =
     (case c of
        I64 n \<Rightarrow> of_int (wrap64 (n * 100))
      | Num y \<Rightarrow> round64 (round64 x * 100)
      | Text s \<Rightarrow> round64 (round64 x * 100)
      | NA \<Rightarrow> round64 (round64 x * 100))"

text \<open>Lines 12 and 13: both coercions, and the margin times 100 (NaN stays NaN).\<close>

definition coerce_row :: "(string \<Rightarrow> real option) \<Rightarrow> csv_row \<Rightarrow> row" where
  "coerce_row parse r =
     \<lparr>discount = to_numeric parse (csv_discount r),
      profit = csv_profit r,
      sales = csv_sales r,
      profit_margin =
        map_option (mul100 (csv_profit_margin r)) (to_numeric parse (csv_profit_margin r))\<rparr>"

definition isna :: "cell \<Rightarrow> bool" where
  "isna c = (c = NA)"

text \<open>Line 14: \<^verbatim>\<open>dropna(subset=['discount', 'profit', 'sales'])\<close>.\<close>

definition dropna :: "row list \<Rightarrow> row list" where
  "dropna rs = filter (\<lambda>r. discount r \<noteq> None \<and> \<not> isna (profit r) \<and> \<not> isna (sales r)) rs"

definition bins :: "real list" where
  "bins = [0, 0.1, 0.2, 0.3, 0.4, 1.0]"

definition labels :: "string list" where
  "labels = [''0-10%'', ''10-20%'', ''20-30%'', ''30-40%'', ''40%+'']"

text \<open>
  \<^verbatim>\<open>bins.searchsorted(x, side='left')\<close> on an increasing array: the number of
  edges below \<open>x\<close>.
\<close>

definition searchsorted_left :: "real list \<Rightarrow> real \<Rightarrow> nat" where
  "searchsorted_left bs x = length (takeWhile (\<lambda>b. b < x) bs)"

text \<open>
  \<^verbatim>\<open>pd.cut(x, bins, labels)\<close> with the defaults \<^verbatim>\<open>right=True\<close> and
  \<^verbatim>\<open>include_lowest=False\<close>: index 0 and index \<^verbatim>\<open>len(bins)\<close> are outside every
  interval and give a missing category, as a missing \<open>x\<close> does.
\<close>

definition cut :: "real option \<Rightarrow> real list \<Rightarrow> string list \<Rightarrow> string option" where
  "cut v bs ls =
     (case v of
        None \<Rightarrow> None
      | Some x \<Rightarrow>
          (let i = searchsorted_left bs x
           in if i = 0 \<or> i = length bs then None else Some (ls ! (i - 1))))"

text \<open>\<^verbatim>\<open>.astype(str)\<close> on the categorical: a missing category becomes the text nan.\<close>

definition astype_str :: "string option \<Rightarrow> string" where
  "astype_str c = (case c of None \<Rightarrow> ''nan'' | Some l \<Rightarrow> l)"

definition add_discount_range :: "row \<Rightarrow> prepared_row" where
  "add_discount_range r =
     \<lparr>discount = discount r, profit = profit r, sales = sales r,
      profit_margin = profit_margin r,
      discount_range = astype_str (cut (discount r) bins labels)\<rparr>"

definition load_and_prepare_data :: "(string \<Rightarrow> real option) \<Rightarrow> csv_row list \<Rightarrow> prepared_row list" where
  "load_and_prepare_data parse file = map add_discount_range (dropna (map (coerce_row parse) file))"

section \<open>perform_discount_analysis\<close>

definition is_text :: "cell \<Rightarrow> bool" where
  "is_text c = (case c of Num x \<Rightarrow> False | I64 n \<Rightarrow> False | Text s \<Rightarrow> True | NA \<Rightarrow> False)"

definition is_i64 :: "cell \<Rightarrow> bool" where
  "is_i64 c = (case c of Num x \<Rightarrow> False | I64 n \<Rightarrow> True | Text s \<Rightarrow> False | NA \<Rightarrow> False)"

definition int_of :: "cell \<Rightarrow> int" where
  "int_of c = (case c of Num x \<Rightarrow> 0 | I64 n \<Rightarrow> n | Text s \<Rightarrow> 0 | NA \<Rightarrow> 0)"

text \<open>The float64 of a numeric cell.\<close>

definition float_of :: "cell \<Rightarrow> real" where
  "float_of c =
     (case c of Num x \<Rightarrow> round64 x | I64 n \<Rightarrow> round64 (of_int n) | Text s \<Rightarrow> 0 | NA \<Rightarrow> 0)"

text \<open>
  The float64 sum of a group, as the grouped sum and mean of pandas accumulate it, row
  by row with a compensation term (Kahan summation):
  \<^verbatim>\<open>y = val - c; t = sumx + y; c = t - sumx - y; sumx = t\<close>.
\<close>

fun kahan :: "real \<Rightarrow> real \<Rightarrow> real list \<Rightarrow> real" where
  "kahan sumx c [] = sumx"
| "kahan sumx c (val # vals) =
     (let y = round64 (val - c);
          t = round64 (sumx + y)
      in kahan t (round64 (round64 (t - sumx) - y)) vals)"

text \<open>
  The sum of a group's cells skips missing values. A group of int64 is summed in
  int64, which wraps around; otherwise the cells are summed as float64. Over strings
  pandas concatenates and line 34 then raises on the string operand; the model raises
  at the sum, which is the same result of \<^verbatim>\<open>perform_discount_analysis\<close>.
\<close>

definition sum_cells :: "cell list \<Rightarrow> error + real" where
  "sum_cells cs =
     (let vs = filter (\<lambda>c. \<not> isna c) cs
      in if list_ex is_text vs then Inl TypeError
         else if list_all is_i64 vs then Inr (of_int (wrap64 (sum_list (map int_of vs))))
         else Inr (kahan 0 0 (map float_of vs)))"

fun notna_values :: "real option list \<Rightarrow> real list" where
  "notna_values [] = []"
| "notna_values (None # vs) = notna_values vs"
| "notna_values (Some x # vs) = x # notna_values vs"

text \<open>
  The mean of a group skips NaN, and is NaN when nothing is left. It is the float64
  sum of the values, taken as float64, divided by their number.
\<close>

definition mean :: "real option list \<Rightarrow> real option" where
  "mean vs =
     (let xs = notna_values vs
      in if xs = [] then None
         else Some (round64 (kahan 0 0 (map round64 xs) / real (length xs))))"

text \<open>
  Float division and multiplication: the exact result rounded, infinite when it
  leaves the float64 range or when a non-zero number is divided by zero, NaN for 0/0.
\<close>

definition fdiv :: "real \<Rightarrow> real \<Rightarrow> float64" where
  "fdiv p s =
     (if s \<noteq> 0 then to_float64 (p / s)
      else if 0 < p then PosInf else if p < 0 then NegInf else NaN)"

fun fmul :: "float64 \<Rightarrow> real \<Rightarrow> float64" where
  "fmul (Finite x) k = to_float64 (x * k)"
| "fmul PosInf k = (if 0 < k then PosInf else if k < 0 then NegInf else NaN)"
| "fmul NegInf k = (if 0 < k then NegInf else if k < 0 then PosInf else NaN)"
| "fmul NaN k = NaN"

text \<open>
  One row of the aggregate: lines 27-31 and line 34, where both sums are taken as
  float64 for the division.
\<close>

definition agg_group :: "string \<Rightarrow> prepared_row list \<Rightarrow> error + (string \<times> agg_row)" where
  "agg_group k g =
     (case sum_cells (map sales g) of
        Inl e \<Rightarrow> Inl e
      | Inr s \<Rightarrow>
          (case sum_cells (map profit g) of
             Inl e \<Rightarrow> Inl e
           | Inr p \<Rightarrow>
               Inr (k, \<lparr>total_sales = s, total_profit = p,
                        avg_profit_margin = mean (map profit_margin g),
                        profit_to_sales_ratio = fmul (fdiv (round64 p) (round64 s)) 100\<rparr>)))"

fun collect :: "(error + 'a) list \<Rightarrow> error + 'a list" where
  "collect [] = Inr []"
| "collect (Inl e # rs) = Inl e"
| "collect (Inr x # rs) = (case collect rs of Inl e \<Rightarrow> Inl e | Inr xs \<Rightarrow> Inr (x # xs))"

text \<open>
  \<^verbatim>\<open>groupby('discount_range')\<close> on the column of strings: one group per distinct key,
  the keys sorted as strings (\<^verbatim>\<open>sort=True\<close>).
\<close>

definition group_keys :: "prepared_row list \<Rightarrow> string list" where
  "group_keys data = sort (remdups (map discount_range data))"

definition group_rows :: "prepared_row list \<Rightarrow> string \<Rightarrow> prepared_row list" where
  "group_rows data k = filter (\<lambda>r. discount_range r = k) data"

definition perform_discount_analysis :: "prepared_row list \<Rightarrow> error + (string \<times> agg_row) list" where
  "perform_discount_analysis data =
     collect (map (\<lambda>k. agg_group k (group_rows data k)) (group_keys data))"

section \<open>The recommendation of main\<close>

text \<open>
  \<^verbatim>\<open>Series.idxmax()\<close>: NaN is skipped and the first position of the maximum wins. An
  empty series raises ValueError. A series of NaN only gives NaN (pandas 1 and 2),
  here \<open>Inr None\<close>.
\<close>

fun nanargmax :: "(string \<times> real) option \<Rightarrow> (string \<times> real option) list \<Rightarrow> (string \<times> real) option" where
  "nanargmax best [] = best"
| "nanargmax best ((k, None) # s) = nanargmax best s"
| "nanargmax None ((k, Some v) # s) = nanargmax (Some (k, v)) s"
| "nanargmax (Some (b, m)) ((k, Some v) # s) =
     nanargmax (if m < v then Some (k, v) else Some (b, m)) s"

definition idxmax :: "(string \<times> real option) list \<Rightarrow> error + string option" where
  "idxmax s = (if s = [] then Inl ValueError else Inr (map_option fst (nanargmax None s)))"

text \<open>Line 91: \<^verbatim>\<open>discount_analysis['profit_margin'].idxmax()\<close>.\<close>

definition optimal_range :: "(string \<times> agg_row) list \<Rightarrow> error + string option" where
  "optimal_range discount_analysis =
     idxmax (map (\<lambda>(k, a). (k, avg_profit_margin a)) discount_analysis)"

text \<open>The Recommendations view of an uploaded file: lines 46, 49 and 91.\<close>

definition main_recommendations :: "(string \<Rightarrow> real option) \<Rightarrow> csv_row list \<Rightarrow> error + string option" where
  "main_recommendations parse file =
     (case perform_discount_analysis (load_and_prepare_data parse file) of
        Inl e \<Rightarrow> Inl e
      | Inr discount_analysis \<Rightarrow> optimal_range discount_analysis)"

section \<open>Notions used to state the properties\<close>

text \<open>The value of a numeric cell; a cell without a number counts for nothing in a sum.\<close>

definition num_of :: "cell \<Rightarrow> real" where
  "num_of c = (case c of Num x \<Rightarrow> round64 x | I64 n \<Rightarrow> of_int n | Text s \<Rightarrow> 0 | NA \<Rightarrow> 0)"

text \<open>
  Cells whose sums are exact in float64 and in int64 alike: whole numbers whose
  absolute values add up to less than \<open>2^53\<close>.
\<close>

definition whole_cell :: "cell \<Rightarrow> bool" where
  "whole_cell c =
     (case c of Num x \<Rightarrow> x = of_int \<lfloor>x\<rfloor> | I64 n \<Rightarrow> True | Text s \<Rightarrow> False | NA \<Rightarrow> False)"

definition cell_mag :: "cell \<Rightarrow> real" where
  "cell_mag c = (case c of Num x \<Rightarrow> \<bar>x\<bar> | I64 n \<Rightarrow> \<bar>of_int n\<bar> | Text s \<Rightarrow> 0 | NA \<Rightarrow> 0)"

definition exact_cells :: "cell list \<Rightarrow> bool" where
  "exact_cells cs = (list_all whole_cell cs \<and> sum_list (map cell_mag cs) < 2 ^ 53)"

text \<open>The same for a list of values.\<close>

definition exact_values :: "real list \<Rightarrow> bool" where
  "exact_values xs = (list_all (\<lambda>x. x = of_int \<lfloor>x\<rfloor>) xs \<and> sum_list (map abs xs) < 2 ^ 53)"

text \<open>The margins of the rows of a group that have one.\<close>

definition present_margins :: "prepared_row list \<Rightarrow> real list" where
  "present_margins g = map (\<lambda>r. the (profit_margin r)) (filter (\<lambda>r. profit_margin r \<noteq> None) g)"

text \<open>
  The interval table of the specification, section 3, read as it is written: five
  intervals open on the left and closed on the right, and the placeholder for a
  discount in none of them.
\<close>

definition interval_label :: "real \<Rightarrow> string" where
  "interval_label d =
     (if 0 < d \<and> d \<le> 0.10 then ''0-10%''
      else if 0.10 < d \<and> d \<le> 0.20 then ''10-20%''
      else if 0.20 < d \<and> d \<le> 0.30 then ''20-30%''
      else if 0.30 < d \<and> d \<le> 0.40 then ''30-40%''
      else if 0.40 < d \<and> d \<le> 1.0 then ''40%+''
      else ''nan'')"

text \<open>
  A string parser that takes no string for a number. It stands for the parser of pandas
  in the examples, whose only texts (such as abc) are not numbers.
\<close>

definition no_parse :: "string \<Rightarrow> real option" where
  "no_parse s = None"

section \<open>Sample tables\<close>

text \<open>
  Seven rows as \<^verbatim>\<open>read_csv\<close> gives them, every column numeric with empty cells: one row
  in 10-20\%, three in 0-10\% (one on the edge 0.1, one without a margin), one with
  discount 0 and sales 0, and two that lack the discount or the profit.
\<close>

definition example_file :: "csv_row list" where
  "example_file =
     [\<lparr>csv_discount = Num 0.15, csv_profit = Num 50, csv_sales = Num 500, csv_profit_margin = Num 0.1\<rparr>,
      \<lparr>csv_discount = Num 0.05, csv_profit = Num 100, csv_sales = Num 1000, csv_profit_margin = Num 0.12\<rparr>,
      \<lparr>csv_discount = Num 0.1, csv_profit = Num 30, csv_sales = Num 300, csv_profit_margin = Num 0.08\<rparr>,
      \<lparr>csv_discount = Num 0.05, csv_profit = Num 20, csv_sales = Num 200, csv_profit_margin = NA\<rparr>,
      \<lparr>csv_discount = Num 0, csv_profit = Num 5, csv_sales = Num 0, csv_profit_margin = NA\<rparr>,
      \<lparr>csv_discount = NA, csv_profit = Num 1, csv_sales = Num 1, csv_profit_margin = Num 0.5\<rparr>,
      \<lparr>csv_discount = Num 0.25, csv_profit = NA, csv_sales = Num 3, csv_profit_margin = Num 0.2\<rparr>]"

text \<open>The table it is prepared to, and its aggregate.\<close>

definition example_data :: "prepared_row list" where
  "example_data =
     [\<lparr>discount = Some 0.15, profit = Num 50, sales = Num 500, profit_margin = Some 10,
       discount_range = ''10-20%''\<rparr>,
      \<lparr>discount = Some 0.05, profit = Num 100, sales = Num 1000, profit_margin = Some 12,
       discount_range = ''0-10%''\<rparr>,
      \<lparr>discount = Some 0.1, profit = Num 30, sales = Num 300, profit_margin = Some 8,
       discount_range = ''0-10%''\<rparr>,
      \<lparr>discount = Some 0.05, profit = Num 20, sales = Num 200, profit_margin = None,
       discount_range = ''0-10%''\<rparr>,
      \<lparr>discount = Some 0, profit = Num 5, sales = Num 0, profit_margin = None,
       discount_range = ''nan''\<rparr>]"

definition example_analysis :: "(string \<times> agg_row) list" where
  "example_analysis =
     [(''0-10%'', \<lparr>total_sales = 1500, total_profit = 150, avg_profit_margin = Some 10,
                   profit_to_sales_ratio = Finite 10\<rparr>),
      (''10-20%'', \<lparr>total_sales = 500, total_profit = 50, avg_profit_margin = Some 10,
                    profit_to_sales_ratio = Finite 10\<rparr>),
      (''nan'', \<lparr>total_sales = 0, total_profit = 5, avg_profit_margin = None,
                 profit_to_sales_ratio = PosInf\<rparr>)]"

text \<open>
  Three tables on which float64 rounding or int64 wrap-around shows. In the first the
  sales 0.1 and 0.2 share a bucket and 0.4 has another; in the second three rows of one
  bucket have the margin 0.001; in the third two int64 sales of one bucket add up to
  \<open>2^63\<close>.
\<close>

definition rounding_file :: "csv_row list" where
  "rounding_file =
     [\<lparr>csv_discount = Num 0.05, csv_profit = Num 0, csv_sales = Num 0.1, csv_profit_margin = NA\<rparr>,
      \<lparr>csv_discount = Num 0.15, csv_profit = Num 0, csv_sales = Num 0.4, csv_profit_margin = NA\<rparr>,
      \<lparr>csv_discount = Num 0.05, csv_profit = Num 0, csv_sales = Num 0.2, csv_profit_margin = NA\<rparr>]"

definition rounding_analysis :: "(string \<times> agg_row) list" where
  "rounding_analysis =
     [(''0-10%'', \<lparr>total_sales = 1351079888211149 / 2 ^ 52, total_profit = 0,
                   avg_profit_margin = None, profit_to_sales_ratio = Finite 0\<rparr>),
      (''10-20%'', \<lparr>total_sales = 3602879701896397 / 2 ^ 53, total_profit = 0,
                    avg_profit_margin = None, profit_to_sales_ratio = Finite 0\<rparr>)]"

definition margin_file :: "csv_row list" where
  "margin_file =
     [\<lparr>csv_discount = Num 0.05, csv_profit = Num 0, csv_sales = Num 1, csv_profit_margin = Num 0.001\<rparr>,
      \<lparr>csv_discount = Num 0.05, csv_profit = Num 0, csv_sales = Num 1, csv_profit_margin = Num 0.001\<rparr>,
      \<lparr>csv_discount = Num 0.05, csv_profit = Num 0, csv_sales = Num 1, csv_profit_margin = Num 0.001\<rparr>]"

definition margin_analysis :: "(string \<times> agg_row) list" where
  "margin_analysis =
     [(''0-10%'', \<lparr>total_sales = 3, total_profit = 0,
                   avg_profit_margin = Some (7205759403792795 / 2 ^ 56),
                   profit_to_sales_ratio = Finite 0\<rparr>)]"



section \<open>Facts about float64 and int64 arithmetic\<close>

lemma float_exp_bounds:
  "0 < x \<Longrightarrow> 2 powi float_exp x \<le> x \<and> x < 2 powi (float_exp x + 1)"
proof (induction x rule: float_exp.induct)
  case (1 x)
  show ?case
  proof (cases "2 \<le> x")
    case True
    then have e: "float_exp x = float_exp (x / 2) + 1"
      using "1.prems" by (subst float_exp.simps) simp
    have ih: "2 powi float_exp (x / 2) \<le> x / 2 \<and> x / 2 < 2 powi (float_exp (x / 2) + 1)"
      using "1.IH"(1) "1.prems" True by simp
    have p: "(2::real) powi (float_exp (x / 2) + 1) = 2 powi float_exp (x / 2) * 2"
      by (rule power_int_add_1) simp
    have q: "(2::real) powi (float_exp (x / 2) + 1 + 1) = 2 powi (float_exp (x / 2) + 1) * 2"
      by (rule power_int_add_1) simp
    show ?thesis unfolding e q using ih p by simp
  next
    case False
    show ?thesis
    proof (cases "x < 1")
      case True
      then have e: "float_exp x = float_exp (x * 2) - 1"
        using "1.prems" False by (subst float_exp.simps) simp
      have ih: "2 powi float_exp (x * 2) \<le> x * 2 \<and> x * 2 < 2 powi (float_exp (x * 2) + 1)"
        using "1.IH"(2) "1.prems" False True by simp
      have "(2::real) powi float_exp (x * 2) = 2 powi (float_exp (x * 2) - 1 + 1)" by simp
      also have "\<dots> = 2 powi (float_exp (x * 2) - 1) * 2" by (rule power_int_add_1) simp
      finally have p: "(2::real) powi float_exp (x * 2) = 2 powi (float_exp (x * 2) - 1) * 2" .
      have q: "(2::real) powi (float_exp (x * 2) + 1) = 2 powi float_exp (x * 2) * 2"
        by (rule power_int_add_1) simp
      have "2 powi (float_exp (x * 2) - 1) \<le> x" using ih p by simp
      moreover have "x < 2 powi (float_exp (x * 2) - 1 + 1)" using ih q by simp
      ultimately show ?thesis unfolding e by simp
    next
      case False
      with \<open>\<not> 2 \<le> x\<close> "1.prems" have "float_exp x = 0"
        by (subst float_exp.simps) simp
      with False \<open>\<not> 2 \<le> x\<close> show ?thesis by simp
    qed
  qed
qed

lemma float_exp_less:
  assumes "0 < x" and "x < 2 powi n"
  shows "float_exp x < n"
proof (rule ccontr)
  assume "\<not> float_exp x < n"
  then have "n \<le> float_exp x" by simp
  then have "(2::real) powi n \<le> 2 powi float_exp x" by (rule power_int_increasing) simp
  with float_exp_bounds [OF assms(1)] assms(2) show False by simp
qed

lemma float_exp_unique:
  assumes "0 < x" and "2 powi k \<le> x" and "x < 2 powi (k + 1)"
  shows "float_exp x = k"
proof -
  have "float_exp x < k + 1" using assms(1,3) by (rule float_exp_less)
  moreover have "k < float_exp x + 1"
  proof (rule ccontr)
    assume "\<not> k < float_exp x + 1"
    then have "float_exp x + 1 \<le> k" by simp
    then have "(2::real) powi (float_exp x + 1) \<le> 2 powi k" by (rule power_int_increasing) simp
    with float_exp_bounds [OF assms(1)] assms(2) show False by simp
  qed
  ultimately show ?thesis by simp
qed

lemma round_even_le: "y \<le> of_int m \<Longrightarrow> round_even y \<le> m"
proof -
  assume y: "y \<le> of_int m"
  have f: "\<lfloor>y\<rfloor> \<le> m" using y by (simp add: floor_le_iff)
  show ?thesis
  proof (cases "y = of_int \<lfloor>y\<rfloor>")
    case True
    then have "y - of_int \<lfloor>y\<rfloor> = 0" by simp
    then have "round_even y = \<lfloor>y\<rfloor>" by (simp add: round_even_def Let_def)
    with f show ?thesis by simp
  next
    case False
    have "\<lfloor>y\<rfloor> \<noteq> m"
    proof
      assume "\<lfloor>y\<rfloor> = m"
      then have "of_int m \<le> y" by (metis of_int_floor_le)
      with y have "y = of_int m" by simp
      with \<open>\<lfloor>y\<rfloor> = m\<close> False show False by simp
    qed
    with f have "\<lfloor>y\<rfloor> + 1 \<le> m" by simp
    moreover have "round_even y \<le> \<lfloor>y\<rfloor> + 1" by (simp add: round_even_def Let_def)
    ultimately show ?thesis by simp
  qed
qed

lemma round_even_ge: "of_int m \<le> y \<Longrightarrow> m \<le> round_even y"
proof -
  assume "of_int m \<le> y"
  then have "m \<le> \<lfloor>y\<rfloor>" by (simp add: le_floor_iff)
  moreover have "\<lfloor>y\<rfloor> \<le> round_even y" by (simp add: round_even_def Let_def)
  ultimately show ?thesis by simp
qed

lemma round64_between:
  assumes small: "\<bar>x\<bar> < 2 ^ 53" and lo: "of_int a \<le> x" and hi: "x \<le> of_int b"
  shows "of_int a \<le> round64 x \<and> round64 x \<le> of_int b"
proof (cases "x = 0")
  case True
  with lo hi show ?thesis by (simp add: round64_def)
next
  case False
  define e where "e = max (float_exp \<bar>x\<bar> - 52) (- 1074)"
  have pos: "0 < \<bar>x\<bar>" using False by simp
  have "\<bar>x\<bar> < 2 powi 53" using small by simp
  then have "float_exp \<bar>x\<bar> < 53" using pos by (intro float_exp_less)
  then have e0: "e \<le> 0" by (simp add: e_def)
  define p where "p = nat (- e)"
  have pe: "(2::real) powi e = 1 / 2 ^ p"
    using e0 by (simp add: p_def power_int_def field_simps)
  have r: "round64 x = of_int (round_even (x * 2 ^ p)) / 2 ^ p"
    using False by (simp add: round64_def e_def [symmetric] Let_def pe)
  have "x * 2 ^ p \<le> of_int (b * 2 ^ p)" using hi by simp
  then have "round_even (x * 2 ^ p) \<le> b * 2 ^ p" by (rule round_even_le)
  then have "(of_int (round_even (x * 2 ^ p)) :: real) \<le> of_int (b * 2 ^ p)"
    by (simp only: of_int_le_iff)
  then have up: "round64 x \<le> of_int b" unfolding r by (simp add: field_simps)
  have "of_int (a * 2 ^ p) \<le> x * 2 ^ p" using lo by simp
  then have "a * 2 ^ p \<le> round_even (x * 2 ^ p)" by (rule round_even_ge)
  then have "(of_int (a * 2 ^ p) :: real) \<le> of_int (round_even (x * 2 ^ p))"
    by (simp only: of_int_le_iff)
  then have "of_int a \<le> round64 x" unfolding r by (simp add: field_simps)
  with up show ?thesis by simp
qed

lemma round64_of_int:
  assumes "\<bar>of_int n :: real\<bar> < 2 ^ 53"
  shows "round64 (of_int n) = of_int n"
  using round64_between [OF assms, of n n] by simp

lemma round64_zero: "round64 0 = 0"
  by (simp add: round64_def)

lemma kahan_exact:
  assumes "\<bar>of_int s :: real\<bar> + sum_list (map (\<lambda>n. \<bar>of_int n\<bar>) ns) < 2 ^ 53"
  shows "kahan (of_int s) 0 (map of_int ns) = of_int (s + sum_list ns)"
  using assms
proof (induction ns arbitrary: s)
  case Nil
  then show ?case by simp
next
  case (Cons n ns)
  have nonneg: "0 \<le> sum_list (map (\<lambda>n. \<bar>of_int n :: real\<bar>) ns)"
    by (rule sum_list_nonneg) auto
  have n: "\<bar>of_int n :: real\<bar> < 2 ^ 53" using Cons.prems nonneg by simp
  have sn: "\<bar>of_int (s + n) :: real\<bar> < 2 ^ 53" using Cons.prems nonneg by simp
  have y: "round64 (of_int n - 0) = of_int n" using round64_of_int [OF n] by simp
  have t: "round64 (of_int s + of_int n) = of_int (s + n)"
    using round64_of_int [OF sn] by simp
  have "round64 (of_int (s + n) - of_int s) = of_int n"
    using round64_of_int [OF n] by simp
  then have c: "round64 (round64 (of_int (s + n) - of_int s) - of_int n) = 0"
    by (simp add: round64_zero)
  have "\<bar>of_int (s + n) :: real\<bar> + sum_list (map (\<lambda>n. \<bar>of_int n\<bar>) ns) < 2 ^ 53"
    using Cons.prems by simp
  from Cons.IH [OF this] have ih: "kahan (of_int (s + n)) 0 (map of_int ns) = of_int (s + n + sum_list ns)" .
  have "kahan (of_int s) 0 (map of_int (n # ns))
      = kahan (round64 (of_int s + round64 (of_int n - 0)))
          (round64 (round64 (round64 (of_int s + round64 (of_int n - 0)) - of_int s)
             - round64 (of_int n - 0))) (map of_int ns)"
    by (simp only: list.map kahan.simps Let_def)
  also have "\<dots> = kahan (of_int (s + n)) 0 (map of_int ns)"
    by (simp only: y t c)
  also have "\<dots> = of_int (s + sum_list (n # ns))"
    using ih by (simp add: add.assoc)
  finally show ?case .
qed

lemmas float_eval = round64_def float_exp.simps round_even_def to_float64_def Let_def

lemma round64_numeral:
  "(numeral k :: real) < 2 ^ 53 \<Longrightarrow> round64 (numeral k) = numeral k"
  using round64_of_int [of "numeral k"] by simp

lemma round64_neg_numeral:
  "(numeral k :: real) < 2 ^ 53 \<Longrightarrow> round64 (- numeral k) = - numeral k"
  using round64_of_int [of "- numeral k"] by simp

lemma round64_one: "round64 1 = 1"
  using round64_of_int [of 1] by simp

lemma wrap64_id: "- (2 ^ 63) \<le> n \<Longrightarrow> n < 2 ^ 63 \<Longrightarrow> wrap64 n = n"
  by (simp add: wrap64_def)

section \<open>Facts about the preparation\<close>

lemma cut_interval: "astype_str (cut (Some d) bins labels) = interval_label d"
  by (simp add: cut_def searchsorted_left_def bins_def labels_def astype_str_def
      interval_label_def Let_def)


lemma interval_label_range: "interval_label d \<in> set labels \<or> interval_label d = ''nan''"
  by (simp add: interval_label_def labels_def)

lemma prepared_row_cases:
  assumes "r \<in> set (load_and_prepare_data parse file)"
  obtains c d where "c \<in> set file" and "to_numeric parse (csv_discount c) = Some d"
    and "csv_profit c \<noteq> NA" and "csv_sales c \<noteq> NA"
    and "r = \<lparr>discount = Some d, profit = csv_profit c, sales = csv_sales c,
              profit_margin = map_option (mul100 (csv_profit_margin c)) (to_numeric parse (csv_profit_margin c)),
              discount_range = interval_label d\<rparr>"
proof -
  from assms obtain c where c: "c \<in> set file"
    and keep: "discount (coerce_row parse c) \<noteq> None" "\<not> isna (profit (coerce_row parse c))"
      "\<not> isna (sales (coerce_row parse c))"
    and r: "r = add_discount_range (coerce_row parse c)"
    by (auto simp: load_and_prepare_data_def dropna_def)
  from keep(1) obtain d where d: "to_numeric parse (csv_discount c) = Some d"
    by (auto simp: coerce_row_def)
  have "r = \<lparr>discount = Some d, profit = csv_profit c, sales = csv_sales c,
              profit_margin = map_option (mul100 (csv_profit_margin c)) (to_numeric parse (csv_profit_margin c)),
              discount_range = interval_label d\<rparr>"
    using r d cut_interval [of d] by (simp add: add_discount_range_def coerce_row_def)
  moreover have "csv_profit c \<noteq> NA" "csv_sales c \<noteq> NA"
    using keep(2,3) by (simp_all add: coerce_row_def isna_def)
  ultimately show ?thesis using that c d by blast
qed


lemma prepared_label_range:
  assumes "r \<in> set (load_and_prepare_data parse file)"
  shows "discount_range r \<in> set labels \<or> discount_range r = ''nan''"
  using assms by (rule prepared_row_cases) (simp add: interval_label_range)



section \<open>Facts about the aggregation\<close>

lemma collect_map_Inr: "collect (map Inr xs) = Inr xs"
  by (induction xs) auto

lemma collect_Inr_D: "collect rs = Inr xs \<Longrightarrow> rs = map Inr xs"
proof (induction rs arbitrary: xs)
  case Nil
  then show ?case by simp
next
  case (Cons r rs)
  show ?case
  proof (cases r)
    case (Inl e)
    with Cons.prems show ?thesis by simp
  next
    case (Inr x)
    with Cons.prems obtain ys where ys: "collect rs = Inr ys" "xs = x # ys"
      by (auto split: sum.splits)
    with Cons.IH [of ys] Inr show ?thesis by simp
  qed
qed

lemma collect_eq_Inr: "collect rs = Inr xs \<longleftrightarrow> rs = map Inr xs"
  using collect_map_Inr collect_Inr_D by blast

lemma sum_cells_Inr_iff: "(\<exists>s. sum_cells cs = Inr s) \<longleftrightarrow> (\<forall>c\<in>set cs. \<not> is_text c)"
proof -
  have "list_ex is_text (filter (\<lambda>c. \<not> isna c) cs) \<longleftrightarrow> (\<exists>c\<in>set cs. is_text c)"
    by (auto simp: list_ex_iff isna_def is_text_def)
  then show ?thesis
    by (auto simp: sum_cells_def Let_def)
qed

lemma sum_cells_no_text:
  "\<forall>c\<in>set cs. \<not> is_text c \<Longrightarrow> \<exists>s. sum_cells cs = Inr s"
  by (simp add: sum_cells_Inr_iff)

lemma notna_values_eq:
  "notna_values (map profit_margin g) = present_margins g"
  by (induction g) (auto simp: present_margins_def)

lemma mean_present:
  "mean (map profit_margin g) =
     (if present_margins g = [] then None
      else Some (round64 (kahan 0 0 (map round64 (present_margins g))
                          / real (length (present_margins g)))))"
  by (simp add: mean_def notna_values_eq Let_def)



lemma mean_bounds:
  fixes xs :: "real list"
  assumes "xs \<noteq> []"
  shows "Min (set xs) \<le> sum_list xs / real (length xs)"
    and "sum_list xs / real (length xs) \<le> Max (set xs)"
proof -
  have n: "0 < real (length xs)" using assms by simp
  have "sum_list (map (\<lambda>x. Min (set xs)) xs) \<le> sum_list (map (\<lambda>x. x) xs)"
    by (rule sum_list_mono) simp
  then have "real (length xs) * Min (set xs) \<le> sum_list xs"
    by (simp add: sum_list_triv)
  then show "Min (set xs) \<le> sum_list xs / real (length xs)"
    using n by (simp add: pos_le_divide_eq mult.commute)
  have "sum_list (map (\<lambda>x. x) xs) \<le> sum_list (map (\<lambda>x. Max (set xs)) xs)"
    by (rule sum_list_mono) simp
  then have "sum_list xs \<le> real (length xs) * Max (set xs)"
    by (simp add: sum_list_triv)
  then show "sum_list xs / real (length xs) \<le> Max (set xs)"
    using n by (simp add: pos_divide_le_eq mult.commute)
qed

lemma agg_group_Inr:
  assumes "agg_group k g = Inr (k', a)"
  shows "k' = k"
    and "sum_cells (map sales g) = Inr (total_sales a)"
    and "sum_cells (map profit g) = Inr (total_profit a)"
    and "avg_profit_margin a = mean (map profit_margin g)"
    and "profit_to_sales_ratio a
         = fmul (fdiv (round64 (total_profit a)) (round64 (total_sales a))) 100"
proof -
  from assms obtain s p where s: "sum_cells (map sales g) = Inr s"
    and p: "sum_cells (map profit g) = Inr p"
    and a: "k' = k" "a = \<lparr>total_sales = s, total_profit = p,
                        avg_profit_margin = mean (map profit_margin g),
                        profit_to_sales_ratio = fmul (fdiv (round64 p) (round64 s)) 100\<rparr>"
    by (auto simp: agg_group_def split: sum.splits)
  show "k' = k" by (rule a(1))
  show "sum_cells (map sales g) = Inr (total_sales a)" using a(2) s by simp
  show "sum_cells (map profit g) = Inr (total_profit a)" using a(2) p by simp
  show "avg_profit_margin a = mean (map profit_margin g)" using a(2) by simp
  show "profit_to_sales_ratio a
         = fmul (fdiv (round64 (total_profit a)) (round64 (total_sales a))) 100"
    using a(2) by simp
qed

lemma agg_group_total:
  assumes "\<forall>r\<in>set g. \<not> is_text (sales r) \<and> \<not> is_text (profit r)"
  shows "\<exists>a. agg_group k g = Inr (k, a)"
proof -
  have "\<forall>c\<in>set (map sales g). \<not> is_text c" and "\<forall>c\<in>set (map profit g). \<not> is_text c"
    using assms by auto
  then obtain s p where "sum_cells (map sales g) = Inr s" and "sum_cells (map profit g) = Inr p"
    using sum_cells_no_text by blast
  then show ?thesis
    by (simp add: agg_group_def)
qed

lemma analysis_Inr_map:
  assumes "perform_discount_analysis data = Inr agg"
  shows "map (\<lambda>k. agg_group k (group_rows data k)) (group_keys data) = map Inr agg"
  using assms by (simp add: perform_discount_analysis_def collect_eq_Inr)

lemma analysis_Inr_nth:
  assumes "perform_discount_analysis data = Inr agg" and "i < length agg"
  shows "i < length (group_keys data)"
    and "agg_group (group_keys data ! i) (group_rows data (group_keys data ! i)) = Inr (agg ! i)"
proof -
  let ?f = "\<lambda>k. agg_group k (group_rows data k)"
  have eq: "map ?f (group_keys data) = map Inr agg"
    using assms(1) by (rule analysis_Inr_map)
  have len: "length (group_keys data) = length agg"
    using eq by (rule map_eq_imp_length_eq)
  show i: "i < length (group_keys data)" using len assms(2) by simp
  have "?f (group_keys data ! i) = map ?f (group_keys data) ! i"
    using i by simp
  also have "\<dots> = map Inr agg ! i" unfolding eq ..
  also have "\<dots> = Inr (agg ! i)" using assms(2) by simp
  finally show "?f (group_keys data ! i) = Inr (agg ! i)" .
qed

lemma analysis_Inr_keys:
  assumes "perform_discount_analysis data = Inr agg"
  shows "map fst agg = group_keys data"
proof (rule nth_equalityI)
  have "length (group_keys data) = length agg"
    using analysis_Inr_map [OF assms] by (rule map_eq_imp_length_eq)
  then show "length (map fst agg) = length (group_keys data)" by simp
next
  fix i assume "i < length (map fst agg)"
  then have i: "i < length agg" by simp
  obtain k a where ka: "agg ! i = (k, a)" by (cases "agg ! i")
  have "agg_group (group_keys data ! i) (group_rows data (group_keys data ! i)) = Inr (k, a)"
    using analysis_Inr_nth(2) [OF assms i] ka by simp
  then have "k = group_keys data ! i" by (rule agg_group_Inr(1))
  then show "map fst agg ! i = group_keys data ! i" using i ka by simp
qed

lemma analysis_Inr_row:
  assumes "perform_discount_analysis data = Inr agg" and "(k, a) \<in> set agg"
  shows "agg_group k (group_rows data k) = Inr (k, a)"
proof -
  obtain i where i: "i < length agg" "agg ! i = (k, a)"
    using assms(2) by (auto simp: in_set_conv_nth)
  have g: "agg_group (group_keys data ! i) (group_rows data (group_keys data ! i)) = Inr (k, a)"
    using analysis_Inr_nth(2) [OF assms(1) i(1)] i(2) by simp
  then have "k = group_keys data ! i" by (rule agg_group_Inr(1))
  with g show ?thesis by simp
qed

lemma analysis_total:
  assumes "\<forall>r\<in>set data. \<not> is_text (sales r) \<and> \<not> is_text (profit r)"
  shows "\<exists>agg. perform_discount_analysis data = Inr agg"
proof -
  have ex: "\<exists>a. agg_group k (group_rows data k) = Inr (k, a)" for k
    using assms by (intro agg_group_total) (simp add: group_rows_def)
  define f where "f k = (SOME a. agg_group k (group_rows data k) = Inr (k, a))" for k
  have f: "agg_group k (group_rows data k) = Inr (k, f k)" for k
    unfolding f_def using ex [of k] by (rule someI_ex)
  have "map (\<lambda>k. agg_group k (group_rows data k)) (group_keys data)
        = map Inr (map (\<lambda>k. (k, f k)) (group_keys data))"
    by (simp add: f)
  then have "perform_discount_analysis data = Inr (map (\<lambda>k. (k, f k)) (group_keys data))"
    unfolding perform_discount_analysis_def by (simp only: collect_map_Inr)
  then show ?thesis by blast
qed

lemma group_keys_props:
  "sorted (group_keys data)" "distinct (group_keys data)"
  "set (group_keys data) = discount_range ` set data"
  by (simp_all add: group_keys_def)

lemma agg_keys_distinct:
  assumes "perform_discount_analysis data = Inr agg" and "(k, a) \<in> set agg" and "(k, a') \<in> set agg"
  shows "a = a'"
proof -
  have "distinct (map fst agg)"
    by (simp only: analysis_Inr_keys [OF assms(1)] group_keys_props)
  then show ?thesis using assms(2,3) by (rule eq_key_imp_eq_value)
qed

lemma sum_list_indicator:
  "distinct ks \<Longrightarrow> a \<in> set ks \<Longrightarrow> sum_list (map (\<lambda>k. if a = k then c else (0::real)) ks) = c"
proof (induction ks)
  case Nil
  then show ?case by simp
next
  case (Cons k ks)
  show ?case
  proof (cases "a = k")
    case True
    with Cons.prems have "a \<notin> set ks" by simp
    then have "sum_list (map (\<lambda>k. if a = k then c else 0) ks) = 0"
      by (induction ks) auto
    with True show ?thesis by simp
  next
    case False
    with Cons show ?thesis by simp
  qed
qed

lemma sum_list_groups:
  fixes f :: "'a \<Rightarrow> real"
  assumes "distinct ks" and "g ` set xs \<subseteq> set ks"
  shows "sum_list (map (\<lambda>k. sum_list (map f (filter (\<lambda>r. g r = k) xs))) ks) = sum_list (map f xs)"
  using assms(2)
proof (induction xs)
  case Nil
  show ?case by simp
next
  case (Cons x xs)
  have split: "sum_list (map f (filter (\<lambda>r. g r = k) (x # xs)))
        = (if g x = k then f x else 0) + sum_list (map f (filter (\<lambda>r. g r = k) xs))" for k
    by simp
  have "sum_list (map (\<lambda>k. sum_list (map f (filter (\<lambda>r. g r = k) (x # xs)))) ks)
      = sum_list (map (\<lambda>k. if g x = k then f x else 0) ks)
        + sum_list (map (\<lambda>k. sum_list (map f (filter (\<lambda>r. g r = k) xs))) ks)"
    unfolding split by (rule sum_list_addf)
  also have "sum_list (map (\<lambda>k. if g x = k then f x else 0) ks) = f x"
    using assms(1) Cons.prems by (intro sum_list_indicator) auto
  also have "sum_list (map (\<lambda>k. sum_list (map f (filter (\<lambda>r. g r = k) xs))) ks) = sum_list (map f xs)"
    using Cons.prems by (intro Cons.IH) auto
  finally show ?case by simp
qed

lemma mean_none: "notna_values vs = [] \<Longrightarrow> mean vs = None"
  by (simp add: mean_def)

section \<open>Facts about the recommendation\<close>

lemma nanargmax_Some_start:
  "nanargmax (Some (b, m0)) s = Some (k, m) \<Longrightarrow>
     m0 \<le> m \<and> (\<forall>(k', v)\<in>set s. \<forall>x. v = Some x \<longrightarrow> x \<le> m)
     \<and> ((k, m) = (b, m0)
        \<or> (m0 < m \<and> (\<exists>pre post. s = pre @ (k, Some m) # post
                        \<and> (\<forall>(k', v)\<in>set pre. \<forall>x. v = Some x \<longrightarrow> x < m))))"
proof (induction s arbitrary: b m0)
  case Nil
  then show ?case by simp
next
  case (Cons e s)
  obtain k' v where e: "e = (k', v)" by (cases e)
  show ?case
  proof (cases v)
    case None
    with Cons.prems e have "nanargmax (Some (b, m0)) s = Some (k, m)" by simp
    from Cons.IH [OF this] have ih: "m0 \<le> m" "\<forall>(k', v)\<in>set s. \<forall>x. v = Some x \<longrightarrow> x \<le> m"
      "(k, m) = (b, m0)
        \<or> (m0 < m \<and> (\<exists>pre post. s = pre @ (k, Some m) # post
                        \<and> (\<forall>(k', v)\<in>set pre. \<forall>x. v = Some x \<longrightarrow> x < m)))"
      by blast+
    from ih(3) have "(k, m) = (b, m0)
        \<or> (m0 < m \<and> (\<exists>pre post. e # s = pre @ (k, Some m) # post
                        \<and> (\<forall>(k', v)\<in>set pre. \<forall>x. v = Some x \<longrightarrow> x < m)))"
    proof
      assume "(k, m) = (b, m0)" then show ?thesis by blast
    next
      assume "m0 < m \<and> (\<exists>pre post. s = pre @ (k, Some m) # post
                        \<and> (\<forall>(k', v)\<in>set pre. \<forall>x. v = Some x \<longrightarrow> x < m))"
      then obtain pre post where lt: "m0 < m" and s: "s = pre @ (k, Some m) # post"
        and pre: "\<forall>(k', v)\<in>set pre. \<forall>x. v = Some x \<longrightarrow> x < m" by blast
      have "e # s = (e # pre) @ (k, Some m) # post" using s by simp
      moreover have "\<forall>(k', v)\<in>set (e # pre). \<forall>x. v = Some x \<longrightarrow> x < m"
        using pre e None by simp
      ultimately show ?thesis using lt by blast
    qed
    with ih(1,2) e None show ?thesis by simp
  next
    case (Some x)
    show ?thesis
    proof (cases "m0 < x")
      case True
      with Cons.prems e Some have "nanargmax (Some (k', x)) s = Some (k, m)" by simp
      from Cons.IH [OF this] have ih: "x \<le> m" "\<forall>(k', v)\<in>set s. \<forall>x. v = Some x \<longrightarrow> x \<le> m"
        "(k, m) = (k', x)
          \<or> (x < m \<and> (\<exists>pre post. s = pre @ (k, Some m) # post
                        \<and> (\<forall>(k', v)\<in>set pre. \<forall>x. v = Some x \<longrightarrow> x < m)))"
        by blast+
      have lt: "m0 < m" using True ih(1) by simp
      from ih(3) have "\<exists>pre post. e # s = pre @ (k, Some m) # post
                        \<and> (\<forall>(k', v)\<in>set pre. \<forall>x. v = Some x \<longrightarrow> x < m)"
      proof
        assume "(k, m) = (k', x)"
        then have "e # s = [] @ (k, Some m) # s" using e Some by simp
        then show ?thesis by (metis empty_iff empty_set)
      next
        assume "x < m \<and> (\<exists>pre post. s = pre @ (k, Some m) # post
                        \<and> (\<forall>(k', v)\<in>set pre. \<forall>x. v = Some x \<longrightarrow> x < m))"
        then obtain pre post where xm: "x < m" and s: "s = pre @ (k, Some m) # post"
          and pre: "\<forall>(k', v)\<in>set pre. \<forall>x. v = Some x \<longrightarrow> x < m" by blast
        have "e # s = (e # pre) @ (k, Some m) # post" using s by simp
        moreover have "\<forall>(k', v)\<in>set (e # pre). \<forall>x. v = Some x \<longrightarrow> x < m"
          using pre e Some xm by simp
        ultimately show ?thesis by blast
      qed
      with lt ih(1,2) e Some show ?thesis by simp
    next
      case False
      with Cons.prems e Some have "nanargmax (Some (b, m0)) s = Some (k, m)" by simp
      from Cons.IH [OF this] have ih: "m0 \<le> m" "\<forall>(k', v)\<in>set s. \<forall>x. v = Some x \<longrightarrow> x \<le> m"
        "(k, m) = (b, m0)
          \<or> (m0 < m \<and> (\<exists>pre post. s = pre @ (k, Some m) # post
                        \<and> (\<forall>(k', v)\<in>set pre. \<forall>x. v = Some x \<longrightarrow> x < m)))"
        by blast+
      have xm: "x \<le> m" using False ih(1) by simp
      from ih(3) have "(k, m) = (b, m0)
        \<or> (m0 < m \<and> (\<exists>pre post. e # s = pre @ (k, Some m) # post
                        \<and> (\<forall>(k', v)\<in>set pre. \<forall>x. v = Some x \<longrightarrow> x < m)))"
      proof
        assume "(k, m) = (b, m0)" then show ?thesis by blast
      next
        assume "m0 < m \<and> (\<exists>pre post. s = pre @ (k, Some m) # post
                        \<and> (\<forall>(k', v)\<in>set pre. \<forall>x. v = Some x \<longrightarrow> x < m))"
        then obtain pre post where lt: "m0 < m" and s: "s = pre @ (k, Some m) # post"
          and pre: "\<forall>(k', v)\<in>set pre. \<forall>x. v = Some x \<longrightarrow> x < m" by blast
        have "e # s = (e # pre) @ (k, Some m) # post" using s by simp
        moreover have "\<forall>(k', v)\<in>set (e # pre). \<forall>x. v = Some x \<longrightarrow> x < m"
          using pre e Some False lt by simp
        ultimately show ?thesis using lt by blast
      qed
      with ih(1,2) xm e Some show ?thesis by simp
    qed
  qed
qed

lemma nanargmax_None_start:
  "nanargmax None s = Some (k, m) \<Longrightarrow>
     (\<forall>(k', v)\<in>set s. \<forall>x. v = Some x \<longrightarrow> x \<le> m)
     \<and> (\<exists>pre post. s = pre @ (k, Some m) # post
          \<and> (\<forall>(k', v)\<in>set pre. \<forall>x. v = Some x \<longrightarrow> x < m))"
proof (induction s)
  case Nil
  then show ?case by simp
next
  case (Cons e s)
  obtain k' v where e: "e = (k', v)" by (cases e)
  show ?case
  proof (cases v)
    case None
    with Cons.prems e have "nanargmax None s = Some (k, m)" by simp
    from Cons.IH [OF this] obtain pre post where all: "\<forall>(k', v)\<in>set s. \<forall>x. v = Some x \<longrightarrow> x \<le> m"
      and s: "s = pre @ (k, Some m) # post"
      and pre: "\<forall>(k', v)\<in>set pre. \<forall>x. v = Some x \<longrightarrow> x < m" by blast
    have "e # s = (e # pre) @ (k, Some m) # post" using s by simp
    moreover have "\<forall>(k', v)\<in>set (e # pre). \<forall>x. v = Some x \<longrightarrow> x < m"
      using pre e None by simp
    ultimately have "\<exists>pre post. e # s = pre @ (k, Some m) # post
          \<and> (\<forall>(k', v)\<in>set pre. \<forall>x. v = Some x \<longrightarrow> x < m)" by blast
    with all e None show ?thesis by simp
  next
    case (Some x)
    with Cons.prems e have "nanargmax (Some (k', x)) s = Some (k, m)" by simp
    from nanargmax_Some_start [OF this]
    have st: "x \<le> m" "\<forall>(k', v)\<in>set s. \<forall>x. v = Some x \<longrightarrow> x \<le> m"
      "(k, m) = (k', x)
        \<or> (x < m \<and> (\<exists>pre post. s = pre @ (k, Some m) # post
                        \<and> (\<forall>(k', v)\<in>set pre. \<forall>x. v = Some x \<longrightarrow> x < m)))"
      by blast+
    from st(3) have "\<exists>pre post. e # s = pre @ (k, Some m) # post
          \<and> (\<forall>(k', v)\<in>set pre. \<forall>x. v = Some x \<longrightarrow> x < m)"
    proof
      assume "(k, m) = (k', x)"
      then have "e # s = [] @ (k, Some m) # s" using e Some by simp
      then show ?thesis by (metis empty_iff empty_set)
    next
      assume "x < m \<and> (\<exists>pre post. s = pre @ (k, Some m) # post
                        \<and> (\<forall>(k', v)\<in>set pre. \<forall>x. v = Some x \<longrightarrow> x < m))"
      then obtain pre post where xm: "x < m" and s: "s = pre @ (k, Some m) # post"
        and pre: "\<forall>(k', v)\<in>set pre. \<forall>x. v = Some x \<longrightarrow> x < m" by blast
      have "e # s = (e # pre) @ (k, Some m) # post" using s by simp
      moreover have "\<forall>(k', v)\<in>set (e # pre). \<forall>x. v = Some x \<longrightarrow> x < m"
        using pre e Some xm by simp
      ultimately show ?thesis by blast
    qed
    with st(1,2) e Some show ?thesis by simp
  qed
qed

lemma optimal_range_first_max:
  assumes "optimal_range agg = Inr (Some k)"
  shows "\<exists>pre a post m. agg = pre @ (k, a) # post \<and> avg_profit_margin a = Some m
           \<and> (\<forall>(k', a')\<in>set pre. \<forall>x. avg_profit_margin a' = Some x \<longrightarrow> x < m)
           \<and> (\<forall>(k', a')\<in>set agg. \<forall>x. avg_profit_margin a' = Some x \<longrightarrow> x \<le> m)"
proof -
  let ?f = "\<lambda>(k, a). (k, avg_profit_margin a)"
  from assms have "map_option fst (nanargmax None (map ?f agg)) = Some k"
    by (simp add: optimal_range_def idxmax_def split: if_splits)
  then obtain m where "nanargmax None (map ?f agg) = Some (k, m)"
    by auto
  from nanargmax_None_start [OF this] obtain pre' post'
    where all: "\<forall>(k', v)\<in>set (map ?f agg). \<forall>x. v = Some x \<longrightarrow> x \<le> m"
      and dec: "map ?f agg = pre' @ (k, Some m) # post'"
      and pre': "\<forall>(k', v)\<in>set pre'. \<forall>x. v = Some x \<longrightarrow> x < m"
    by blast
  from dec obtain pre rest where agg1: "agg = pre @ rest" and p: "map ?f pre = pre'"
    and r: "map ?f rest = (k, Some m) # post'"
    by (auto simp: map_eq_append_conv)
  from r obtain e post where rest: "rest = e # post" and e: "?f e = (k, Some m)"
    by (auto simp: map_eq_Cons_conv)
  obtain k0 a where ka: "e = (k0, a)" by (cases e)
  with e have k0: "k0 = k" and a: "avg_profit_margin a = Some m" by simp_all
  have agg: "agg = pre @ (k, a) # post" using agg1 rest ka k0 by simp
  have "\<forall>(k', a')\<in>set pre. \<forall>x. avg_profit_margin a' = Some x \<longrightarrow> x < m"
    using pre' p by force
  moreover have "\<forall>(k', a')\<in>set agg. \<forall>x. avg_profit_margin a' = Some x \<longrightarrow> x \<le> m"
    using all by force
  ultimately show ?thesis using agg a by blast
qed

lemma sorted_distinct_index_order:
  fixes xs :: "'a::linorder list"
  assumes "sorted_wrt (<) xs" and "x \<in> set xs" and "y \<in> set xs" and "x \<le> y"
  shows "\<exists>i j. i \<le> j \<and> j < length xs \<and> xs ! i = x \<and> xs ! j = y"
proof -
  from assms(2,3) obtain i j where i: "i < length xs" "xs ! i = x" and j: "j < length xs" "xs ! j = y"
    by (auto simp: in_set_conv_nth)
  have "i \<le> j"
  proof (rule ccontr)
    assume "\<not> i \<le> j"
    then have "j < i" by simp
    then have "xs ! j < xs ! i" using assms(1) i(1) by (simp add: sorted_wrt_nth_less)
    then show False using assms(4) i(2) j(2) by simp
  qed
  then show ?thesis using i j by blast
qed

lemma labels_sorted: "sorted_wrt (<) labels"
  by (simp add: labels_def)

lemma labels_below_nan: "l \<in> set labels \<Longrightarrow> l < ''nan''"
  by (auto simp: labels_def)

lemma nanargmax_Some_not_None: "nanargmax (Some bm) s \<noteq> None"
proof (induction s arbitrary: bm)
  case Nil
  then show ?case by simp
next
  case (Cons e s)
  obtain k v where e: "e = (k, v)" by (cases e)
  obtain b m where bm: "bm = (b, m)" by (cases bm)
  show ?case
  proof (cases v)
    case None
    then show ?thesis using Cons.IH e by simp
  next
    case (Some x)
    then show ?thesis using Cons.IH e bm by simp
  qed
qed

lemma nanargmax_None_not_None:
  assumes "(k, Some m) \<in> set s"
  shows "nanargmax None s \<noteq> None"
  using assms
proof (induction s)
  case Nil
  then show ?case by simp
next
  case (Cons e s)
  obtain k' v where e: "e = (k', v)" by (cases e)
  show ?case
  proof (cases v)
    case None
    then show ?thesis using Cons e by auto
  next
    case (Some x)
    then show ?thesis using e nanargmax_Some_not_None by simp
  qed
qed

lemma optimal_range_exists:
  assumes "(k, a) \<in> set agg" and "avg_profit_margin a = Some m"
  shows "\<exists>k'. optimal_range agg = Inr (Some k')"
proof -
  let ?f = "\<lambda>(k, a). (k, avg_profit_margin a)"
  have "(k, Some m) \<in> set (map ?f agg)" using assms by force
  then have "nanargmax None (map ?f agg) \<noteq> None" by (rule nanargmax_None_not_None)
  then obtain km where "nanargmax None (map ?f agg) = Some km" by blast
  moreover have "agg \<noteq> []" using assms(1) by auto
  ultimately show ?thesis by (simp add: optimal_range_def idxmax_def)
qed

lemma labels_index_le:
  assumes "i \<le> j" and "j < length labels"
  shows "labels ! i \<le> labels ! j"
proof (cases "i = j")
  case True
  then show ?thesis by simp
next
  case False
  then have "i < j" using assms(1) by simp
  then have "labels ! i < labels ! j" using labels_sorted assms(2) by (simp add: sorted_wrt_nth_less)
  then show ?thesis by simp
qed

section \<open>Sums and means that are exact\<close>

lemma abs_sum_list_le:
  fixes f :: "'a \<Rightarrow> real"
  shows "\<bar>sum_list (map f xs)\<bar> \<le> sum_list (map (\<lambda>x. \<bar>f x\<bar>) xs)"
  by (induction xs) auto

lemma whole_value_int:
  assumes "x = of_int \<lfloor>x\<rfloor>" and "\<bar>x\<bar> < 2 ^ 53"
  shows "round64 x = x"
proof -
  have "\<bar>of_int \<lfloor>x\<rfloor> :: real\<bar> < 2 ^ 53" using assms by simp
  from round64_of_int [OF this] assms(1) show ?thesis by simp
qed

lemma kahan_exact_values:
  assumes "exact_values xs"
  shows "kahan 0 0 xs = sum_list xs"
proof -
  from assms have w: "\<forall>x\<in>set xs. x = of_int \<lfloor>x\<rfloor>" and m: "sum_list (map abs xs) < 2 ^ 53"
    by (simp_all add: exact_values_def list_all_iff)
  have xs: "xs = map of_int (map floor xs)"
    using w by (induction xs) auto
  have "map (\<lambda>n. \<bar>of_int n :: real\<bar>) (map floor xs) = map abs xs"
    using w by (induction xs) auto
  then have "sum_list (map (\<lambda>n. \<bar>of_int n :: real\<bar>) (map floor xs)) = sum_list (map abs xs)"
    by (simp only:)
  then have "\<bar>of_int 0 :: real\<bar> + sum_list (map (\<lambda>n. \<bar>of_int n\<bar>) (map floor xs)) < 2 ^ 53"
    using m by (simp del: map_map)
  from kahan_exact [OF this] have "kahan 0 0 (map of_int (map floor xs)) = of_int (sum_list (map floor xs))"
    by simp
  also have "\<dots> = sum_list (map of_int (map floor xs))"
    by (induction xs) auto
  finally show ?thesis using xs by simp
qed

lemma exact_values_round:
  assumes "exact_values xs"
  shows "map round64 xs = xs"
proof -
  from assms have w: "\<forall>x\<in>set xs. x = of_int \<lfloor>x\<rfloor>" and m: "sum_list (map abs xs) < 2 ^ 53"
    by (simp_all add: exact_values_def list_all_iff)
  have "\<bar>x\<bar> < 2 ^ 53" if "x \<in> set xs" for x
  proof -
    have "\<bar>x\<bar> \<le> sum_list (map abs xs)"
      using that by (intro member_le_sum_list) auto
    with m show ?thesis by simp
  qed
  with w have "\<forall>x\<in>set xs. round64 x = x" using whole_value_int by blast
  then show ?thesis by (simp add: map_idI)
qed

lemma mean_exact:
  assumes "exact_values (notna_values vs)" and "notna_values vs \<noteq> []"
  shows "mean vs = Some (round64 (sum_list (notna_values vs) / real (length (notna_values vs))))"
  using assms
  by (simp add: mean_def Let_def exact_values_round kahan_exact_values)

lemma whole_cell_int:
  assumes "whole_cell c" and "cell_mag c < 2 ^ 53"
  shows "\<exists>n. num_of c = of_int n \<and> float_of c = of_int n \<and> cell_mag c = \<bar>of_int n\<bar>
             \<and> (is_i64 c \<longrightarrow> int_of c = n)"
proof (cases c)
  case (Num x)
  with assms have w: "x = of_int \<lfloor>x\<rfloor>" and m: "\<bar>x\<bar> < 2 ^ 53"
    by (simp_all add: whole_cell_def cell_mag_def)
  have "round64 x = x" using w m by (rule whole_value_int)
  with Num w show ?thesis
    by (intro exI [of _ "\<lfloor>x\<rfloor>"]) (simp add: num_of_def float_of_def cell_mag_def is_i64_def)
next
  case (I64 n)
  with assms have "\<bar>of_int n :: real\<bar> < 2 ^ 53" by (simp add: cell_mag_def)
  from round64_of_int [OF this] I64 show ?thesis
    by (intro exI [of _ n]) (simp add: num_of_def float_of_def cell_mag_def int_of_def)
next
  case (Text s)
  with assms show ?thesis by (simp add: whole_cell_def)
next
  case NA
  with assms show ?thesis by (simp add: whole_cell_def)
qed

lemma sum_cells_exact:
  assumes "exact_cells cs"
  shows "sum_cells cs = Inr (sum_list (map num_of cs))"
proof -
  from assms have w: "\<forall>c\<in>set cs. whole_cell c" and m: "sum_list (map cell_mag cs) < 2 ^ 53"
    by (simp_all add: exact_cells_def list_all_iff)
  have nonneg: "0 \<le> cell_mag c" for c by (cases c) (simp_all add: cell_mag_def)
  have small: "cell_mag c < 2 ^ 53" if "c \<in> set cs" for c
  proof -
    have "cell_mag c \<le> sum_list (map cell_mag cs)"
      using that nonneg by (intro member_le_sum_list) auto
    with m show ?thesis by simp
  qed
  define nv where "nv c = \<lfloor>num_of c\<rfloor>" for c
  have cell: "num_of c = of_int (nv c) \<and> float_of c = of_int (nv c)
       \<and> cell_mag c = \<bar>of_int (nv c)\<bar> \<and> (is_i64 c \<longrightarrow> int_of c = nv c)"
    if "c \<in> set cs" for c
    using whole_cell_int [OF w [rule_format, OF that] small [OF that]]
    by (auto simp: nv_def)
  have nofilter: "filter (\<lambda>c. \<not> isna c) cs = cs"
    using w by (auto simp: filter_id_conv isna_def whole_cell_def)
  have notext: "\<not> list_ex is_text cs"
    using w by (auto simp: list_ex_iff whole_cell_def is_text_def split: cell.splits)
  have vals: "map num_of cs = map of_int (map nv cs)" using cell by simp
  have flts: "map float_of cs = map of_int (map nv cs)" using cell by simp
  have mags: "map cell_mag cs = map (\<lambda>n. \<bar>of_int n :: real\<bar>) (map nv cs)" using cell by simp
  have tot: "sum_list (map num_of cs) = of_int (sum_list (map nv cs))"
    unfolding vals by (induction cs) auto
  have bound: "\<bar>of_int (sum_list (map nv cs)) :: real\<bar> < 2 ^ 53"
  proof -
    have "\<bar>sum_list (map (\<lambda>c. of_int (nv c) :: real) cs)\<bar>
        \<le> sum_list (map (\<lambda>c. \<bar>of_int (nv c) :: real\<bar>) cs)"
      by (rule abs_sum_list_le)
    also have "\<dots> = sum_list (map cell_mag cs)"
      using cell by (intro arg_cong [of _ _ sum_list] map_cong) simp_all
    finally have "\<bar>sum_list (map (\<lambda>c. of_int (nv c) :: real) cs)\<bar> < 2 ^ 53" using m by simp
    moreover have "sum_list (map (\<lambda>c. of_int (nv c) :: real) cs) = of_int (sum_list (map nv cs))"
      by (induction cs) auto
    ultimately show ?thesis by simp
  qed
  show ?thesis
  proof (cases "list_all is_i64 cs")
    case True
    then have "\<forall>c\<in>set cs. int_of c = nv c" using cell by (simp add: list_all_iff)
    then have "map int_of cs = map nv cs" by (intro map_cong) simp_all
    then have "sum_list (map int_of cs) = sum_list (map nv cs)" by (simp only:)
    moreover have "wrap64 (sum_list (map nv cs)) = sum_list (map nv cs)"
    proof (rule wrap64_id)
      have b: "\<bar>sum_list (map nv cs)\<bar> < 2 ^ 53"
        using bound by (metis of_int_abs of_int_less_iff of_int_numeral of_int_power)
      show "- (2 ^ 63) \<le> sum_list (map nv cs)" using b by simp
      show "sum_list (map nv cs) < 2 ^ 63" using b by simp
    qed
    ultimately show ?thesis
      using True notext by (simp add: sum_cells_def Let_def nofilter tot)
  next
    case False
    have "sum_list (map (\<lambda>n. \<bar>of_int n :: real\<bar>) (map nv cs)) = sum_list (map cell_mag cs)"
      by (simp only: mags)
    then have "\<bar>of_int 0 :: real\<bar> + sum_list (map (\<lambda>n. \<bar>of_int n\<bar>) (map nv cs)) < 2 ^ 53"
      using m by (simp del: map_map)
    from kahan_exact [OF this] have "kahan 0 0 (map float_of cs) = of_int (sum_list (map nv cs))"
      unfolding flts by simp
    then show ?thesis
      using False notext by (simp add: sum_cells_def Let_def nofilter tot)
  qed
qed

lemma cell_mag_nonneg: "0 \<le> cell_mag c"
  by (cases c) (simp_all add: cell_mag_def)

lemma exact_cells_filter:
  assumes "exact_cells (map f xs)"
  shows "exact_cells (map f (filter P xs))"
proof -
  have "sum_list (map cell_mag (map f (filter P xs))) \<le> sum_list (map cell_mag (map f xs))"
    by (induction xs) (auto intro: add_increasing simp: cell_mag_nonneg)
  with assms show ?thesis
    by (auto simp: exact_cells_def list_all_iff)
qed

lemma group_total_exact:
  assumes "perform_discount_analysis data = Inr agg" and "(k, a) \<in> set agg"
    and "exact_cells (map sales (group_rows data k))"
  shows "total_sales a = sum_list (map (\<lambda>r. num_of (sales r)) (group_rows data k))"
proof -
  have "sum_cells (map sales (group_rows data k)) = Inr (total_sales a)"
    using analysis_Inr_row [OF assms(1,2)] by (rule agg_group_Inr(2))
  with sum_cells_exact [OF assms(3)] show ?thesis by (simp add: comp_def)
qed


lemma exact_values_member:
  assumes "exact_values xs" and "x \<in> set xs"
  shows "x = of_int \<lfloor>x\<rfloor>" and "\<bar>x\<bar> < 2 ^ 53"
proof -
  from assms show "x = of_int \<lfloor>x\<rfloor>" by (simp add: exact_values_def list_all_iff)
  have "\<bar>x\<bar> \<le> sum_list (map abs xs)"
    using assms(2) by (intro member_le_sum_list) auto
  with assms(1) show "\<bar>x\<bar> < 2 ^ 53" by (simp add: exact_values_def)
qed

lemma exact_mean_small:
  assumes "exact_values xs" and "xs \<noteq> []"
  shows "\<bar>sum_list xs / real (length xs)\<bar> < 2 ^ 53"
proof -
  have "\<bar>sum_list xs\<bar> \<le> sum_list (map abs xs)"
    using abs_sum_list_le [of "\<lambda>x. x" xs] by simp
  then have s: "\<bar>sum_list xs\<bar> < 2 ^ 53" using assms(1) by (simp add: exact_values_def)
  have n: "1 \<le> real (length xs)" using assms(2) by (cases xs) simp_all
  have "\<bar>sum_list xs / real (length xs)\<bar> = \<bar>sum_list xs\<bar> / real (length xs)" by simp
  also have "\<dots> \<le> \<bar>sum_list xs\<bar> / 1"
    using n assms(2) by (intro divide_left_mono) simp_all
  finally show ?thesis using s by simp
qed

section \<open>The sample tables, evaluated\<close>

lemma mul100_tenth: "mul100 (Num y) (1 / 10) = 10"
  by (simp add: mul100_def float_eval)

lemma mul100_twentieth: "mul100 (Num y) (1 / 20) = 5"
  by (simp add: mul100_def float_eval)

lemma mul100_12: "mul100 (Num y) (3 / 25) = 12"
  by (simp add: mul100_def float_eval)

lemma mul100_8: "mul100 (Num y) (2 / 25) = 8"
  by (simp add: mul100_def float_eval)

lemma mul100_thousandth: "mul100 (Num y) (1 / 1000) = 3602879701896397 / 2 ^ 55"
  by (simp add: mul100_def float_eval)

lemma ratio_tenth: "fmul (to_float64 (1 / 10)) 100 = Finite 10"
  by (simp add: float_eval)

lemma kahan_step:
  assumes "round64 (val - c) = y" and "round64 (sumx + y) = t"
    and "round64 (round64 (t - sumx) - y) = c'"
  shows "kahan sumx c (val # vals) = kahan t c' vals"
  using assms by (simp add: Let_def)

lemma kahan_last: "kahan sumx c [val] = round64 (sumx + round64 (val - c))"
  by (simp add: Let_def)

lemmas prepare_eval = load_and_prepare_data_def coerce_row_def to_numeric_def dropna_def isna_def
  add_discount_range_def cut_def searchsorted_left_def bins_def labels_def astype_str_def
  mul100_tenth mul100_twentieth mul100_12 mul100_8

lemmas exact_eval = sum_cells_exact mean_exact mean_none exact_cells_def exact_values_def whole_cell_def
  cell_mag_def num_of_def round64_numeral round64_zero round64_one

lemmas analysis_eval = perform_discount_analysis_def group_keys_def group_rows_def agg_group_def
  fdiv_def ratio_tenth exact_eval

lemma example_prepared: "load_and_prepare_data parse example_file = example_data"
  by (simp add: example_file_def example_data_def prepare_eval del: not_None_eq)

lemma example_aggregate: "perform_discount_analysis example_data = Inr example_analysis"
  by (simp add: example_data_def example_analysis_def analysis_eval)

lemma example_optimal: "optimal_range example_analysis = Inr (Some ''0-10%'')"
  by (simp add: example_analysis_def optimal_range_def idxmax_def)

lemma rounding_prepared:
  "load_and_prepare_data no_parse rounding_file =
     [\<lparr>discount = Some 0.05, profit = Num 0, sales = Num 0.1, profit_margin = None,
       discount_range = ''0-10%''\<rparr>,
      \<lparr>discount = Some 0.15, profit = Num 0, sales = Num 0.4, profit_margin = None,
       discount_range = ''10-20%''\<rparr>,
      \<lparr>discount = Some 0.05, profit = Num 0, sales = Num 0.2, profit_margin = None,
       discount_range = ''0-10%''\<rparr>]"
  by (simp add: rounding_file_def prepare_eval del: not_None_eq)

lemma sum_tenth_fifth: "sum_cells [Num (1 / 10), Num (1 / 5)] = Inr (1351079888211149 / 2 ^ 52)"
  by (simp add: sum_cells_def isna_def is_text_def is_i64_def float_of_def float_eval)

lemma sum_two_fifths: "sum_cells [Num (2 / 5)] = Inr (3602879701896397 / 2 ^ 53)"
  by (simp add: sum_cells_def isna_def is_text_def is_i64_def float_of_def float_eval)

lemma ratio_zero_a: "fmul (fdiv 0 (round64 (1351079888211149 / 2 ^ 52))) 100 = Finite 0"
  by (simp add: fdiv_def float_eval)

lemma ratio_zero_b: "fmul (fdiv 0 (round64 (3602879701896397 / 2 ^ 53))) 100 = Finite 0"
  by (simp add: fdiv_def float_eval)

lemma rounding_aggregate:
  "perform_discount_analysis (load_and_prepare_data no_parse rounding_file) = Inr rounding_analysis"
  by (simp add: rounding_prepared rounding_analysis_def perform_discount_analysis_def
      group_keys_def group_rows_def agg_group_def sum_tenth_fifth sum_two_fifths mean_none
      exact_eval fdiv_def float_eval)





lemma margin_prepared:
  "load_and_prepare_data no_parse margin_file =
     [\<lparr>discount = Some 0.05, profit = Num 0, sales = Num 1,
       profit_margin = Some (3602879701896397 / 2 ^ 55), discount_range = ''0-10%''\<rparr>,
      \<lparr>discount = Some 0.05, profit = Num 0, sales = Num 1,
       profit_margin = Some (3602879701896397 / 2 ^ 55), discount_range = ''0-10%''\<rparr>,
      \<lparr>discount = Some 0.05, profit = Num 0, sales = Num 1,
       profit_margin = Some (3602879701896397 / 2 ^ 55), discount_range = ''0-10%''\<rparr>]"
  by (simp add: margin_file_def prepare_eval mul100_thousandth del: not_None_eq)

lemma margin_mean:
  "mean [Some (3602879701896397 / 2 ^ 55), Some (3602879701896397 / 2 ^ 55),
         Some (3602879701896397 / 2 ^ 55)] = Some (7205759403792795 / 2 ^ 56)"
proof -
  let ?m = "3602879701896397 / 2 ^ 55 :: real"
  have r1: "round64 ?m = ?m" by (simp add: float_eval)
  have nv: "notna_values [Some ?m, Some ?m, Some ?m] = [?m, ?m, ?m]"
    by simp
  have m1: "map round64 [?m, ?m, ?m] = [?m, ?m, ?m]" by (simp only: list.map r1)
  have "kahan 0 0 [?m, ?m, ?m] = kahan ?m 0 [?m, ?m]"
    by (rule kahan_step [where y = ?m]) (simp_all add: float_eval)
  also have "\<dots> = kahan (3602879701896397 / 2 ^ 54) 0 [?m]"
    by (rule kahan_step [where y = ?m]) (simp_all add: float_eval)
  also have "\<dots> = round64 (3602879701896397 / 2 ^ 54 + round64 (?m - 0))"
    by (rule kahan_last)
  also have "\<dots> = 1351079888211149 / 2 ^ 52" by (simp add: float_eval)
  finally have k: "kahan 0 0 [?m, ?m, ?m] = 1351079888211149 / 2 ^ 52" .
  have len: "real (length [?m, ?m, ?m]) = 3" by simp
  have fin: "round64 (1351079888211149 / 2 ^ 52 / 3) = 7205759403792795 / 2 ^ 56"
    by (simp add: float_eval)
  show ?thesis
    by (simp only: mean_def Let_def nv r1 k len fin list.simps if_False)
qed

section \<open>Bucketing\<close>



section \<open>The worked example\<close>

text \<open>
  C2. On the two rows (discount 0.05, profit 100, sales 1000, margin 0.1) and
  (discount 0.15, profit 50, sales 500, margin 0.05), preparing and aggregating gives
  exactly two rows: 0-10\% with total sales 1000, total profit 100, average margin 10
  and ratio 10, then 10-20\% with total sales 500, total profit 50, average margin 5
  and ratio 10.
\<close>

theorem example_two_rows:
  "perform_discount_analysis
     (load_and_prepare_data parse
        [\<lparr>csv_discount = Num 0.05, csv_profit = Num 100, csv_sales = Num 1000,
          csv_profit_margin = Num 0.1\<rparr>,
         \<lparr>csv_discount = Num 0.15, csv_profit = Num 50, csv_sales = Num 500,
          csv_profit_margin = Num 0.05\<rparr>])
   = Inr [(''0-10%'', \<lparr>total_sales = 1000, total_profit = 100,
                        avg_profit_margin = Some 10, profit_to_sales_ratio = Finite 10\<rparr>),
          (''10-20%'', \<lparr>total_sales = 500, total_profit = 50,
                         avg_profit_margin = Some 5, profit_to_sales_ratio = Finite 10\<rparr>)]"
proof -
  have "load_and_prepare_data parse
        [\<lparr>csv_discount = Num 0.05, csv_profit = Num 100, csv_sales = Num 1000,
          csv_profit_margin = Num 0.1\<rparr>,
         \<lparr>csv_discount = Num 0.15, csv_profit = Num 50, csv_sales = Num 500,
          csv_profit_margin = Num 0.05\<rparr>]
      = [\<lparr>discount = Some 0.05, profit = Num 100, sales = Num 1000, profit_margin = Some 10,
          discount_range = ''0-10%''\<rparr>,
         \<lparr>discount = Some 0.15, profit = Num 50, sales = Num 500, profit_margin = Some 5,
          discount_range = ''10-20%''\<rparr>]"
    by (simp add: prepare_eval del: not_None_eq)
  then show ?thesis
    by (simp add: analysis_eval)
qed

section \<open>Row filtering\<close>

text \<open>
  C3. A file whose only row has the text abc as profit, with a numeric discount, sales
  and margin. Lines 12 and 13 coerce the discount and the margin, not the profit: the
  row is not dropped, it is in the prepared table with its label. The aggregation of
  that table then raises TypeError, and so does the recommendation.
\<close>

theorem text_profit_kept_then_raises:
  "load_and_prepare_data no_parse
     [\<lparr>csv_discount = Num 0.05, csv_profit = Text ''abc'', csv_sales = Num 1000,
       csv_profit_margin = Num 0.1\<rparr>]
     = [\<lparr>discount = Some 0.05, profit = Text ''abc'', sales = Num 1000,
         profit_margin = Some 10, discount_range = ''0-10%''\<rparr>]
   \<and> perform_discount_analysis
       [\<lparr>discount = Some 0.05, profit = Text ''abc'', sales = Num 1000,
         profit_margin = Some 10, discount_range = ''0-10%''\<rparr>] = Inl TypeError
   \<and> main_recommendations no_parse
       [\<lparr>csv_discount = Num 0.05, csv_profit = Text ''abc'', csv_sales = Num 1000,
         csv_profit_margin = Num 0.1\<rparr>] = Inl TypeError"
proof -
  have p: "load_and_prepare_data no_parse
     [\<lparr>csv_discount = Num 0.05, csv_profit = Text ''abc'', csv_sales = Num 1000,
       csv_profit_margin = Num 0.1\<rparr>]
     = [\<lparr>discount = Some 0.05, profit = Text ''abc'', sales = Num 1000,
         profit_margin = Some 10, discount_range = ''0-10%''\<rparr>]"
    by (simp add: prepare_eval del: not_None_eq)
  have a: "perform_discount_analysis
       [\<lparr>discount = Some 0.05, profit = Text ''abc'', sales = Num 1000,
         profit_margin = Some 10, discount_range = ''0-10%''\<rparr>] = Inl TypeError"
    by (simp add: perform_discount_analysis_def group_keys_def group_rows_def agg_group_def
        sum_cells_def isna_def is_text_def is_i64_def exact_eval)
  show ?thesis using p a by (simp add: main_recommendations_def)
qed

section \<open>Sums, means and ratios of the groups\<close>

text \<open>
  C4, for sums that are exact. For every prepared table that is aggregated and whose
  sales are whole numbers with absolute values adding up to less than \<open>2^53\<close>, the total
  sales of all rows of the aggregate, the group of the label nan included, add up to the
  sales of all rows of the prepared table.
\<close>

theorem total_sales_partition:
  assumes "perform_discount_analysis data = Inr agg" and "exact_cells (map sales data)"
  shows "sum_list (map (\<lambda>(k, a). total_sales a) agg) = sum_list (map (\<lambda>r. num_of (sales r)) data)"
proof -
  have keys: "map fst agg = group_keys data" by (rule analysis_Inr_keys [OF assms(1)])
  have row: "total_sales a = sum_list (map (\<lambda>r. num_of (sales r)) (group_rows data k))"
    if "(k, a) \<in> set agg" for k a
    using assms(1) that
    by (rule group_total_exact) (simp add: group_rows_def exact_cells_filter [OF assms(2)])
  have "map (\<lambda>(k, a). total_sales a) agg
      = map (\<lambda>(k, a). sum_list (map (\<lambda>r. num_of (sales r)) (group_rows data k))) agg"
    using row by (intro map_cong) auto
  also have "\<dots> = map (\<lambda>k. sum_list (map (\<lambda>r. num_of (sales r)) (group_rows data k))) (map fst agg)"
    by (simp add: comp_def case_prod_unfold)
  finally have "sum_list (map (\<lambda>(k, a). total_sales a) agg)
      = sum_list (map (\<lambda>k. sum_list (map (\<lambda>r. num_of (sales r))
            (filter (\<lambda>r. discount_range r = k) data))) (group_keys data))"
    by (simp only: keys group_rows_def)
  also have "\<dots> = sum_list (map (\<lambda>r. num_of (sales r)) data)"
    by (rule sum_list_groups) (simp_all add: group_keys_props)
  finally show ?thesis .
qed

theorem total_sales_partition_witness:
  "perform_discount_analysis example_data = Inr example_analysis
   \<and> exact_cells (map sales example_data)
   \<and> sum_list (map (\<lambda>(k, a). total_sales a) example_analysis) = 2000
   \<and> sum_list (map (\<lambda>r. num_of (sales r)) example_data) = 2000"
proof -
  have e: "exact_cells (map sales example_data)"
    by (simp add: example_data_def exact_cells_def whole_cell_def cell_mag_def)
  have "sum_list (map (\<lambda>r. num_of (sales r)) example_data) = 2000"
    by (simp add: example_data_def num_of_def round64_numeral round64_zero)
  then show ?thesis
    using total_sales_partition [OF example_aggregate e] example_aggregate e by simp
qed

text \<open>
  C4 as stated fails under float64 rounding. With the sales 0.1 and 0.2 in the bucket
  0-10\% and 0.4 in 10-20\%, the totals are 0.30000000000000004 and 0.4. Their sum is
  0.7000000000000001, which is neither the exact sum of the three sales nor their
  float64 sum 0.7 in row order.
\<close>

theorem rounded_totals_differ:
  "perform_discount_analysis (load_and_prepare_data no_parse rounding_file) = Inr rounding_analysis
   \<and> sum_list (map (\<lambda>(k, a). total_sales a) rounding_analysis)
       \<noteq> sum_list (map (\<lambda>r. num_of (sales r)) (load_and_prepare_data no_parse rounding_file))
   \<and> round64 (sum_list (map (\<lambda>(k, a). total_sales a) rounding_analysis))
       \<noteq> round64 (round64 (num_of (Num 0.1) + num_of (Num 0.4)) + num_of (Num 0.2))"
proof -
  have t: "sum_list (map (\<lambda>(k, a). total_sales a) rounding_analysis) = 6305039478318695 / 2 ^ 53"
    by (simp add: rounding_analysis_def)
  have r: "sum_list (map (\<lambda>r. num_of (sales r)) (load_and_prepare_data no_parse rounding_file))
      = 25220157913274779 / 2 ^ 55"
    by (simp add: rounding_prepared num_of_def float_eval)
  have a: "round64 (round64 (1 / 10) + round64 (2 / 5)) = 1 / 2"
    by (simp add: float_eval)
  have c: "round64 (1 / 2 + round64 (1 / 5)) = 3152519739159347 / 2 ^ 52"
    by (simp add: float_eval)
  have rows: "round64 (round64 (num_of (Num 0.1) + num_of (Num 0.4)) + num_of (Num 0.2))
      = 3152519739159347 / 2 ^ 52"
    by (simp add: num_of_def a c)
  have d: "round64 (6305039478318695 / 2 ^ 53) = 6305039478318695 / 2 ^ 53"
    by (simp add: float_eval)
  have ne1: "(6305039478318695 / 2 ^ 53 :: real) \<noteq> 25220157913274779 / 2 ^ 55" by simp
  have ne2: "(6305039478318695 / 2 ^ 53 :: real) \<noteq> 3152519739159347 / 2 ^ 52" by simp
  show ?thesis
    unfolding t r rows d using rounding_aggregate ne1 ne2 by blast
qed




text \<open>
  C8. When no profit or sales cell is a text, the aggregation raises nothing and
  returns a table with one row for every label of the prepared table; in a row whose
  total sales is 0 the ratio is infinite or NaN.
\<close>

theorem ratio_zero_sales_not_finite:
  assumes "\<forall>r\<in>set data. \<not> is_text (sales r) \<and> \<not> is_text (profit r)"
  shows "\<exists>agg. perform_discount_analysis data = Inr agg
           \<and> set (map fst agg) = discount_range ` set data
           \<and> (\<forall>(k, a)\<in>set agg.
                 total_sales a = 0 \<longrightarrow> profit_to_sales_ratio a \<in> {PosInf, NegInf, NaN})"
proof -
  from analysis_total [OF assms] obtain agg where agg: "perform_discount_analysis data = Inr agg"
    by blast
  have keys: "set (map fst agg) = discount_range ` set data"
    by (simp only: analysis_Inr_keys [OF agg] group_keys_props)
  have ratio: "total_sales a = 0 \<longrightarrow> profit_to_sales_ratio a \<in> {PosInf, NegInf, NaN}"
    if "(k, a) \<in> set agg" for k a
  proof -
    have "profit_to_sales_ratio a
        = fmul (fdiv (round64 (total_profit a)) (round64 (total_sales a))) 100"
      using analysis_Inr_row [OF agg that] by (rule agg_group_Inr(5))
    then show ?thesis by (simp add: fdiv_def round64_zero)
  qed
  show ?thesis using agg keys ratio by blast
qed

theorem ratio_zero_sales_not_finite_witness:
  "list_all (\<lambda>r. \<not> is_text (sales r) \<and> \<not> is_text (profit r)) example_data
   \<and> perform_discount_analysis example_data = Inr example_analysis
   \<and> (''nan'', \<lparr>total_sales = 0, total_profit = 5, avg_profit_margin = None,
                 profit_to_sales_ratio = PosInf\<rparr>) \<in> set example_analysis
   \<and> map fst example_analysis = [''0-10%'', ''10-20%'', ''nan'']"
proof -
  have h: "\<forall>r\<in>set example_data. \<not> is_text (sales r) \<and> \<not> is_text (profit r)"
    by (simp add: example_data_def is_text_def)
  have "(''nan'', \<lparr>total_sales = 0, total_profit = 5, avg_profit_margin = None,
                 profit_to_sales_ratio = PosInf\<rparr>) \<in> set example_analysis"
    and "map fst example_analysis = [''0-10%'', ''10-20%'', ''nan'']"
    by (simp_all add: example_analysis_def)
  then show ?thesis
    using ratio_zero_sales_not_finite [OF h] h example_aggregate by (simp add: list_all_iff)
qed

text \<open>
  C9, for margins whose sum is exact. For every group in which some row has a margin,
  when those margins are whole numbers with absolute values adding up to less than
  \<open>2^53\<close>, the average margin of the group lies between the least and the greatest of
  them.
\<close>

theorem avg_between_min_max:
  assumes "perform_discount_analysis data = Inr agg" and "(k, a) \<in> set agg"
    and "present_margins (group_rows data k) \<noteq> []"
    and "exact_values (present_margins (group_rows data k))"
  shows "\<exists>m. avg_profit_margin a = Some m
           \<and> Min (set (present_margins (group_rows data k))) \<le> m
           \<and> m \<le> Max (set (present_margins (group_rows data k)))"
proof -
  let ?ms = "present_margins (group_rows data k)"
  let ?x = "sum_list ?ms / real (length ?ms)"
  have "avg_profit_margin a = mean (map profit_margin (group_rows data k))"
    using analysis_Inr_row [OF assms(1,2)] by (rule agg_group_Inr(4))
  then have avg: "avg_profit_margin a = Some (round64 ?x)"
    using mean_exact [of "map profit_margin (group_rows data k)"] assms(3,4)
    by (simp add: notna_values_eq)
  have mn: "Min (set ?ms) \<in> set ?ms" and mx: "Max (set ?ms) \<in> set ?ms"
    using assms(3) by simp_all
  have lo: "of_int \<lfloor>Min (set ?ms)\<rfloor> \<le> ?x"
    using mean_bounds(1) [OF assms(3)] exact_values_member(1) [OF assms(4) mn] by simp
  have hi: "?x \<le> of_int \<lfloor>Max (set ?ms)\<rfloor>"
    using mean_bounds(2) [OF assms(3)] exact_values_member(1) [OF assms(4) mx] by simp
  have "of_int \<lfloor>Min (set ?ms)\<rfloor> \<le> round64 ?x \<and> round64 ?x \<le> of_int \<lfloor>Max (set ?ms)\<rfloor>"
    using exact_mean_small [OF assms(4,3)] lo hi by (rule round64_between)
  then have "Min (set ?ms) \<le> round64 ?x \<and> round64 ?x \<le> Max (set ?ms)"
    using exact_values_member(1) [OF assms(4) mn] exact_values_member(1) [OF assms(4) mx]
    by simp
  with avg show ?thesis by simp
qed

theorem avg_between_min_max_witness:
  "perform_discount_analysis example_data = Inr example_analysis
   \<and> (''0-10%'', \<lparr>total_sales = 1500, total_profit = 150, avg_profit_margin = Some 10,
                   profit_to_sales_ratio = Finite 10\<rparr>) \<in> set example_analysis
   \<and> present_margins (group_rows example_data ''0-10%'') = [12, 8]
   \<and> exact_values [12, 8]
   \<and> (\<exists>m. Some (10::real) = Some m \<and> 8 \<le> m \<and> m \<le> 12)"
proof -
  have mem: "(''0-10%'', \<lparr>total_sales = 1500, total_profit = 150, avg_profit_margin = Some 10,
                   profit_to_sales_ratio = Finite 10\<rparr>) \<in> set example_analysis"
    by (simp add: example_analysis_def)
  have pm: "present_margins (group_rows example_data ''0-10%'') = [12, 8]"
    by (simp add: example_data_def group_rows_def present_margins_def)
  have ne: "present_margins (group_rows example_data ''0-10%'') \<noteq> []"
    by (simp add: pm)
  have ev: "exact_values (present_margins (group_rows example_data ''0-10%''))"
    by (simp add: pm exact_values_def)
  show ?thesis
    using avg_between_min_max [OF example_aggregate mem ne ev] example_aggregate mem ev
    by (simp add: pm)
qed

text \<open>
  C9 as stated fails under float64 rounding. Three rows of one bucket with the margin
  0.001 have the margin 0.1 (the float64 product by 100), and the average of the group
  is 0.10000000000000002, above the greatest margin.
\<close>

theorem rounded_mean_above_max:
  "perform_discount_analysis (load_and_prepare_data no_parse margin_file) = Inr margin_analysis
   \<and> map (\<lambda>(k, a). (k, avg_profit_margin a)) margin_analysis
       = [(''0-10%'', Some (7205759403792795 / 2 ^ 56))]
   \<and> present_margins (group_rows (load_and_prepare_data no_parse margin_file) ''0-10%'')
       = [3602879701896397 / 2 ^ 55, 3602879701896397 / 2 ^ 55, 3602879701896397 / 2 ^ 55]
   \<and> Max (set [3602879701896397 / 2 ^ 55, 3602879701896397 / 2 ^ 55,
                3602879701896397 / 2 ^ 55]) < (7205759403792795 / 2 ^ 56 :: real)"
proof -
  have "fmul (fdiv (round64 0) (round64 3)) 100 = Finite 0"
    by (simp add: fdiv_def float_eval)
  then have "perform_discount_analysis (load_and_prepare_data no_parse margin_file)
      = Inr margin_analysis"
    using margin_mean
    by (simp add: margin_prepared margin_analysis_def perform_discount_analysis_def
        group_keys_def group_rows_def agg_group_def exact_eval)
  moreover have "present_margins (group_rows (load_and_prepare_data no_parse margin_file) ''0-10%'')
       = [3602879701896397 / 2 ^ 55, 3602879701896397 / 2 ^ 55, 3602879701896397 / 2 ^ 55]"
    by (simp add: margin_prepared group_rows_def present_margins_def del: not_None_eq)
  ultimately show ?thesis by (simp add: margin_analysis_def)
qed

section \<open>The recommended group\<close>

text \<open>
  C6. A file whose only row has the text abc as discount: the prepared table and the
  aggregate are empty, and the recommendation raises ValueError.
\<close>

theorem empty_table_recommendation_raises:
  "load_and_prepare_data no_parse
     [\<lparr>csv_discount = Text ''abc'', csv_profit = Num 100, csv_sales = Num 1000,
       csv_profit_margin = Num 0.1\<rparr>] = []
   \<and> perform_discount_analysis [] = Inr []
   \<and> main_recommendations no_parse
       [\<lparr>csv_discount = Text ''abc'', csv_profit = Num 100, csv_sales = Num 1000,
         csv_profit_margin = Num 0.1\<rparr>] = Inl ValueError"
  by (simp add: main_recommendations_def load_and_prepare_data_def coerce_row_def
      to_numeric_def no_parse_def dropna_def perform_discount_analysis_def group_keys_def
      optimal_range_def idxmax_def)

text \<open>
  C7. In the aggregate of a prepared table, let the bucket \<open>k\<close> have the greatest of all
  averages present, and let every bucket with the same average come no earlier than \<open>k\<close>
  in the order 0-10\%, 10-20\%, 20-30\%, 30-40\%, 40\%+. Then \<open>k\<close> is the recommended group,
  also when the group of the label nan has that average, and it is the first row of the
  aggregate with that average.
\<close>

theorem tie_goes_to_first_bucket:
  assumes "perform_discount_analysis (load_and_prepare_data parse file) = Inr agg"
    and "(k, ak) \<in> set agg" and "k \<in> set labels" and "avg_profit_margin ak = Some m"
    and "\<forall>(b, ab)\<in>set agg. \<forall>x. avg_profit_margin ab = Some x \<longrightarrow> x \<le> m"
    and "\<forall>(b, ab)\<in>set agg. avg_profit_margin ab = Some m \<longrightarrow> b \<in> set labels \<longrightarrow>
           (\<exists>i j. i \<le> j \<and> j < length labels \<and> labels ! i = k \<and> labels ! j = b)"
  shows "optimal_range agg = Inr (Some k)
       \<and> main_recommendations parse file = Inr (Some k)
       \<and> (\<exists>pre post. agg = pre @ (k, ak) # post
            \<and> (\<forall>(k', a')\<in>set pre. avg_profit_margin a' \<noteq> Some m))"
proof -
  let ?data = "load_and_prepare_data parse file"
  from optimal_range_exists [OF assms(2,4)] obtain k' where opt: "optimal_range agg = Inr (Some k')"
    by blast
  from optimal_range_first_max [OF opt] obtain pre a post m'
    where agg: "agg = pre @ (k', a) # post" and a: "avg_profit_margin a = Some m'"
      and pre: "\<forall>(b, ab)\<in>set pre. \<forall>x. avg_profit_margin ab = Some x \<longrightarrow> x < m'"
      and all: "\<forall>(b, ab)\<in>set agg. \<forall>x. avg_profit_margin ab = Some x \<longrightarrow> x \<le> m'"
    by blast
  have mem': "(k', a) \<in> set agg" using agg by simp
  have "m \<le> m'" using all assms(2,4) by blast
  moreover have "m' \<le> m" using assms(5) mem' a by blast
  ultimately have m: "m' = m" by simp
  have keys: "map fst agg = group_keys ?data" by (rule analysis_Inr_keys [OF assms(1)])
  have srt: "sorted (map fst pre @ k' # map fst post)"
    using keys agg group_keys_props(1) [of ?data] by simp
  have "(k, ak) \<notin> set pre" using pre assms(4) m by fastforce
  then have "(k, ak) = (k', a) \<or> (k, ak) \<in> set post" using assms(2) agg by simp
  then have "k = k' \<or> k \<in> set (map fst post)" by force
  then have le: "k' \<le> k" using srt by (auto simp: sorted_append)
  have "k' \<in> set (group_keys ?data)"
    using mem' keys by (metis fst_conv image_eqI set_map)
  then obtain r where "r \<in> set ?data" "discount_range r = k'"
    by (auto simp: group_keys_props)
  then have "k' \<in> set labels \<or> k' = ''nan''" using prepared_label_range by blast
  moreover have "k' \<noteq> ''nan''" using le labels_below_nan [OF assms(3)] by auto
  ultimately have "k' \<in> set labels" by simp
  then obtain i j where "i \<le> j" "j < length labels" "labels ! i = k" "labels ! j = k'"
    using assms(6) mem' a m by blast
  then have "k \<le> k'" using labels_index_le by blast
  then have k: "k' = k" using le by simp
  then have ak: "a = ak" using agg_keys_distinct [OF assms(1) mem'] assms(2) by simp
  have pre_ne: "\<forall>(b, ab)\<in>set pre. avg_profit_margin ab \<noteq> Some m"
    using pre m by fastforce
  have "main_recommendations parse file = Inr (Some k)"
    using assms(1) opt k by (simp add: main_recommendations_def)
  then show ?thesis using opt k agg ak pre_ne by blast
qed

theorem tie_goes_to_first_bucket_witness:
  "perform_discount_analysis (load_and_prepare_data no_parse example_file) = Inr example_analysis
   \<and> map (\<lambda>(b, ab). (b, avg_profit_margin ab)) example_analysis
       = [(''0-10%'', Some 10), (''10-20%'', Some 10), (''nan'', None)]
   \<and> (''0-10%'', \<lparr>total_sales = 1500, total_profit = 150, avg_profit_margin = Some 10,
                   profit_to_sales_ratio = Finite 10\<rparr>) \<in> set example_analysis
   \<and> ''0-10%'' \<in> set labels
   \<and> optimal_range example_analysis = Inr (Some ''0-10%'')
   \<and> main_recommendations no_parse example_file = Inr (Some ''0-10%'')"
proof -
  let ?a = "\<lparr>total_sales = 1500, total_profit = 150, avg_profit_margin = Some 10,
              profit_to_sales_ratio = Finite 10\<rparr>"
  have h1: "perform_discount_analysis (load_and_prepare_data no_parse example_file)
      = Inr example_analysis"
    by (simp only: example_prepared example_aggregate)
  have avgs: "map (\<lambda>(b, ab). (b, avg_profit_margin ab)) example_analysis
       = [(''0-10%'', Some 10), (''10-20%'', Some 10), (''nan'', None)]"
    by (simp add: example_analysis_def)
  have h2: "(''0-10%'', ?a) \<in> set example_analysis" by (simp add: example_analysis_def)
  have h3: "''0-10%'' \<in> set labels" by (simp add: labels_def)
  have h4: "avg_profit_margin ?a = Some 10" by simp
  have h5: "\<forall>(b, ab)\<in>set example_analysis. \<forall>x. avg_profit_margin ab = Some x \<longrightarrow> x \<le> 10"
    by (simp add: example_analysis_def)
  have e1: "\<exists>i j. i \<le> j \<and> j < length labels \<and> labels ! i = ''0-10%'' \<and> labels ! j = ''0-10%''"
    by (rule exI [of _ 0], rule exI [of _ 0]) (simp add: labels_def)
  have e2: "\<exists>i j. i \<le> j \<and> j < length labels \<and> labels ! i = ''0-10%'' \<and> labels ! j = ''10-20%''"
    by (rule exI [of _ 0], rule exI [of _ 1]) (simp add: labels_def)
  have h6: "\<forall>(b, ab)\<in>set example_analysis. avg_profit_margin ab = Some 10 \<longrightarrow> b \<in> set labels \<longrightarrow>
           (\<exists>i j. i \<le> j \<and> j < length labels \<and> labels ! i = ''0-10%'' \<and> labels ! j = b)"
    using e1 e2 by (simp add: example_analysis_def)
  show ?thesis
    using tie_goes_to_first_bucket [OF h1 h2 h3 h4 h5 h6] h1 avgs h2 h3 by simp
qed

text \<open>
  C10. When no profit or sales cell is a text, the aggregation returns a table in which
  a group whose rows all lack a margin has a missing average, and that group is not the
  recommended one: a recommended group has an average, the greatest of all averages
  present.
\<close>

theorem all_missing_group_not_recommended:
  assumes "\<forall>r\<in>set data. \<not> is_text (sales r) \<and> \<not> is_text (profit r)"
  shows "\<exists>agg. perform_discount_analysis data = Inr agg
     \<and> (\<forall>(k, a)\<in>set agg. (\<forall>r\<in>set (group_rows data k). profit_margin r = None)
           \<longrightarrow> avg_profit_margin a = None \<and> optimal_range agg \<noteq> Inr (Some k))
     \<and> (\<forall>k. optimal_range agg = Inr (Some k) \<longrightarrow>
           (\<exists>a m. (k, a) \<in> set agg \<and> avg_profit_margin a = Some m
              \<and> (\<forall>(k', a')\<in>set agg. \<forall>x. avg_profit_margin a' = Some x \<longrightarrow> x \<le> m)))"
proof -
  from analysis_total [OF assms] obtain agg where agg: "perform_discount_analysis data = Inr agg"
    by blast
  have best: "\<exists>a m. (k, a) \<in> set agg \<and> avg_profit_margin a = Some m
              \<and> (\<forall>(k', a')\<in>set agg. \<forall>x. avg_profit_margin a' = Some x \<longrightarrow> x \<le> m)"
    if "optimal_range agg = Inr (Some k)" for k
  proof -
    from optimal_range_first_max [OF that] obtain pre a post m
      where "agg = pre @ (k, a) # post" and "avg_profit_margin a = Some m"
        and "\<forall>(k', a')\<in>set agg. \<forall>x. avg_profit_margin a' = Some x \<longrightarrow> x \<le> m"
      by blast
    moreover from this(1) have "(k, a) \<in> set agg" by simp
    ultimately show ?thesis by blast
  qed
  have missing: "avg_profit_margin a = None \<and> optimal_range agg \<noteq> Inr (Some k)"
    if ka: "(k, a) \<in> set agg" and none: "\<forall>r\<in>set (group_rows data k). profit_margin r = None" for k a
  proof -
    have "present_margins (group_rows data k) = []"
      using none by (simp add: present_margins_def filter_empty_conv)
    moreover have "avg_profit_margin a = mean (map profit_margin (group_rows data k))"
      using analysis_Inr_row [OF agg ka] by (rule agg_group_Inr(4))
    ultimately have a: "avg_profit_margin a = None" by (simp add: mean_present)
    have "optimal_range agg \<noteq> Inr (Some k)"
    proof
      assume "optimal_range agg = Inr (Some k)"
      from best [OF this] obtain a' m where "(k, a') \<in> set agg" "avg_profit_margin a' = Some m"
        by blast
      with agg_keys_distinct [OF agg ka this(1)] a show False by simp
    qed
    with a show ?thesis by simp
  qed
  show ?thesis using agg best missing by blast
qed

theorem all_missing_group_not_recommended_witness:
  "list_all (\<lambda>r. \<not> is_text (sales r) \<and> \<not> is_text (profit r)) example_data
   \<and> perform_discount_analysis example_data = Inr example_analysis
   \<and> (''nan'', \<lparr>total_sales = 0, total_profit = 5, avg_profit_margin = None,
                 profit_to_sales_ratio = PosInf\<rparr>) \<in> set example_analysis
   \<and> list_all (\<lambda>r. profit_margin r = None) (group_rows example_data ''nan'')
   \<and> optimal_range example_analysis = Inr (Some ''0-10%'')"
proof -
  have h: "\<forall>r\<in>set example_data. \<not> is_text (sales r) \<and> \<not> is_text (profit r)"
    by (simp add: example_data_def is_text_def)
  have "(''nan'', \<lparr>total_sales = 0, total_profit = 5, avg_profit_margin = None,
                 profit_to_sales_ratio = PosInf\<rparr>) \<in> set example_analysis"
    by (simp add: example_analysis_def)
  moreover have "\<forall>r\<in>set (group_rows example_data ''nan''). profit_margin r = None"
    by (simp add: example_data_def group_rows_def)
  ultimately show ?thesis
    using all_missing_group_not_recommended [OF h] h example_aggregate example_optimal
    by (simp add: list_all_iff)
qed

end
